theory Spec2Isabelle
  imports Main "HOL-Library.Word"
begin

section \<open>LString: a string made of singly-linked parts\<close>

text \<open>
  Embedding of \<^verbatim>\<open>ext/common/DataStructures/LString.h\<close>. Pointers to \<^verbatim>\<open>Part\<close> and
  \<^verbatim>\<open>LString\<close> structs are addresses into two typed heaps; a \<^verbatim>\<open>NULL\<close> part pointer is
  \<open>None\<close>. A \<^verbatim>\<open>const char *\<close> is an address into a byte memory. An \<^verbatim>\<open>unsigned int\<close> is a
  32-bit word, so that \<open>+\<close> and \<open>-\<close> wrap around as they do in the source.
\<close>

subsection \<open>Data model\<close>

type_synonym addr = nat
type_synonym byte = "8 word"
type_synonym uint = "32 word"

record Part =
  part_next :: "addr option"
  part_mbuf_block :: "addr option"
  part_data :: addr
  part_size :: uint

record LString =
  lstr_start :: "addr option"
  lstr_end :: "addr option"
  lstr_size :: uint

text \<open>
  Modelled from the spec: \<^verbatim>\<open>StaticString\<close> (\<^verbatim>\<open>StaticString.h\<close> is not part of the sources),
  the borrowed-view type: a read-only contiguous byte view with \<^verbatim>\<open>data()\<close>, \<^verbatim>\<open>size()\<close> (a
  \<^verbatim>\<open>size_t\<close>, here a natural number) and \<^verbatim>\<open>operator[]\<close>.
\<close>

record StaticString =
  ss_data :: addr
  ss_size :: nat

text \<open>
  Modelled from the spec: \<^verbatim>\<open>MemoryKit::mbuf\<close> (\<^verbatim>\<open>MemoryKit/mbuf.h\<close> is not part of the
  sources), a byte range \<open>[start, end)\<close> backed by a reference-counted buffer block;
  \<^verbatim>\<open>size()\<close> is \<open>end - start\<close>.
\<close>

record mbuf =
  mbuf_block :: addr
  mbuf_start :: addr
  mbuf_end :: addr

text \<open>
  \<^verbatim>\<open>Hasher\<close> (\<^verbatim>\<open>Utils/Hasher.h\<close> is not part of the sources) is taken as a parameter: an
  initial accumulator, \<^verbatim>\<open>update(data, size)\<close> on the bytes read, and \<^verbatim>\<open>finalize()\<close>.
\<close>

record 'h Hasher =
  h_init :: 'h
  h_update :: "'h \<Rightarrow> byte list \<Rightarrow> 'h"
  h_finalize :: "'h \<Rightarrow> uint"

text \<open>
  What the source leaves undefined or aborts on is a fault of the model: dereferencing
  \<^verbatim>\<open>NULL\<close>, dereferencing an address that holds no struct of the expected type, a failed
  \<^verbatim>\<open>assert\<close>, and a write past the end of an allocated block. A function with a loop
  returns \<open>None\<close> when the loop does not terminate, \<open>Some (Inl f)\<close> on the fault \<open>f\<close> and
  \<open>Some (Inr v)\<close> when it returns \<open>v\<close>.
\<close>

datatype fault = NullDeref | InvalidPtr | AssertFail | BufferOverflow

text \<open>
  The state: the heap of LString structs, the heap of Part structs, the byte memory, the
  reference count of every buffer block, and the free pointer of the pool.
\<close>

record state =
  lstrs :: "addr \<rightharpoonup> LString"
  parts :: "addr \<rightharpoonup> Part"
  mem :: "addr \<Rightarrow> byte"
  refcount :: "addr \<Rightarrow> nat"
  pool_next :: addr

subsection \<open>Memory primitives\<close>

definition bytes :: "(addr \<Rightarrow> byte) \<Rightarrow> addr \<Rightarrow> nat \<Rightarrow> byte list" where
  "bytes m a n = map m [a ..< a + n]"

fun cmp_bytes :: "byte list \<Rightarrow> byte list \<Rightarrow> int" where
  "cmp_bytes (x # xs) (y # ys) =
     (if x = y then cmp_bytes xs ys else if x < y then - 1 else 1)"
| "cmp_bytes _ _ = 0"

definition memcmp :: "(addr \<Rightarrow> byte) \<Rightarrow> addr \<Rightarrow> addr \<Rightarrow> nat \<Rightarrow> int" where
  "memcmp m a b n = cmp_bytes (bytes m a n) (bytes m b n)"

definition get_part :: "state \<Rightarrow> addr option \<Rightarrow> fault + Part" where
  "get_part s p =
     (case p of None \<Rightarrow> Inl NullDeref
      | Some a \<Rightarrow> (case parts s a of None \<Rightarrow> Inl InvalidPtr | Some x \<Rightarrow> Inr x))"

subsection \<open>First and last byte\<close>

definition psg_lstr_first_byte :: "state \<Rightarrow> LString \<Rightarrow> fault + byte" where
  "psg_lstr_first_byte s str =
     (case get_part s (lstr_start str) of Inl e \<Rightarrow> Inl e
      | Inr p \<Rightarrow> Inr (mem s (part_data p)))"

definition psg_lstr_last_byte :: "state \<Rightarrow> LString \<Rightarrow> fault + byte" where
  "psg_lstr_last_byte s str =
     (case get_part s (lstr_end str) of Inl e \<Rightarrow> Inl e
      | Inr p \<Rightarrow> Inr (mem s (part_data p + unat (part_size p - 1))))"

subsection \<open>Comparison with a contiguous view\<close>

partial_function (option) cmp_ss_loop ::
  "state \<Rightarrow> addr option \<Rightarrow> addr \<Rightarrow> (fault + bool) option" where
  "cmp_ss_loop s part b =
     (case part of None \<Rightarrow> Some (Inr True)
      | Some a \<Rightarrow>
          (case parts s a of None \<Rightarrow> Some (Inl InvalidPtr)
           | Some p \<Rightarrow>
               if memcmp (mem s) (part_data p) b (unat (part_size p)) \<noteq> 0
               then Some (Inr False)
               else cmp_ss_loop s (part_next p) (b + unat (part_size p))))"

definition psg_lstr_cmp_ss :: "state \<Rightarrow> addr \<Rightarrow> StaticString \<Rightarrow> (fault + bool) option" where
  "psg_lstr_cmp_ss s str other =
     (case lstrs s str of None \<Rightarrow> Some (Inl InvalidPtr)
      | Some l \<Rightarrow>
          if unat (lstr_size l) \<noteq> ss_size other then Some (Inr False)
          else
            (case (if 0 < lstr_size l
                   then (case psg_lstr_first_byte s l of Inl e \<Rightarrow> Inl e
                         | Inr fb \<Rightarrow>
                             if fb \<noteq> mem s (ss_data other) then Inr True
                             else
                               (case psg_lstr_last_byte s l of Inl e \<Rightarrow> Inl e
                                | Inr lb \<Rightarrow>
                                    Inr (lb \<noteq> mem s (ss_data other + (ss_size other - 1)))))
                   else Inr False) of
               Inl e \<Rightarrow> Some (Inl e)
             | Inr True \<Rightarrow> Some (Inr False)
             | Inr False \<Rightarrow> cmp_ss_loop s (lstr_start l) (ss_data other)))"

subsection \<open>Comparison with a bounded prefix of a contiguous view\<close>

partial_function (option) cmp_n_loop ::
  "state \<Rightarrow> addr option \<Rightarrow> addr \<Rightarrow> uint \<Rightarrow> uint \<Rightarrow> (fault + bool) option" where
  "cmp_n_loop s part b checked sz =
     (case part of None \<Rightarrow> Some (Inr True)
      | Some a \<Rightarrow>
          if \<not> checked < sz then Some (Inr True)
          else
            (case parts s a of None \<Rightarrow> Some (Inl InvalidPtr)
             | Some p \<Rightarrow>
                 let localSize = min (sz - checked) (part_size p) in
                 if memcmp (mem s) (part_data p) b (unat localSize) \<noteq> 0
                 then Some (Inr False)
                 else cmp_n_loop s (part_next p) (b + unat localSize)
                        (checked + localSize) sz))"

definition psg_lstr_cmp_n ::
  "state \<Rightarrow> addr \<Rightarrow> StaticString \<Rightarrow> uint \<Rightarrow> (fault + bool) option" where
  "psg_lstr_cmp_n s str other sz0 =
     (case lstrs s str of None \<Rightarrow> Some (Inl InvalidPtr)
      | Some l \<Rightarrow>
          let sz =
            (if lstr_size l < sz0 \<and> ss_size other < unat sz0
             then of_nat (max (unat (lstr_size l)) (ss_size other))
             else sz0)
          in
          if sz = 0 then Some (Inr True)
          else if lstr_size l < sz \<or> ss_size other < unat sz then Some (Inr False)
          else if \<not> (0 < lstr_size l \<and> 0 < ss_size other) then Some (Inl AssertFail)
          else
            (case psg_lstr_first_byte s l of Inl e \<Rightarrow> Some (Inl e)
             | Inr fb \<Rightarrow>
                 if fb \<noteq> mem s (ss_data other) then Some (Inr False)
                 else
                   (case (if lstr_start l = lstr_end l
                          then (case get_part s (lstr_start l) of Inl e \<Rightarrow> Inl e
                                | Inr p \<Rightarrow>
                                    Inr (mem s (part_data p + unat (sz - 1))
                                         \<noteq> mem s (ss_data other + unat (sz - 1))))
                          else Inr False) of
                      Inl e \<Rightarrow> Some (Inl e)
                    | Inr True \<Rightarrow> Some (Inr False)
                    | Inr False \<Rightarrow> cmp_n_loop s (lstr_start l) (ss_data other) 0 sz)))"

subsection \<open>Comparison of two LStrings\<close>

text \<open>
  One side of the window resynchronisation at the end of a chunk: when the window's end
  \<open>e\<close> is the end of the current part, move to the next part (dereferencing
  \<^verbatim>\<open>part->next\<close>); otherwise stay in the part and continue from \<open>e\<close>. The result is the
  new current part, the length left in it and the new window start.
\<close>

definition advance :: "state \<Rightarrow> addr \<Rightarrow> Part \<Rightarrow> addr \<Rightarrow> fault + (addr \<times> uint \<times> addr)" where
  "advance s part p e =
     (if e = part_data p + unat (part_size p)
      then (case part_next p of None \<Rightarrow> Inl NullDeref
            | Some a' \<Rightarrow>
                (case parts s a' of None \<Rightarrow> Inl InvalidPtr
                 | Some p' \<Rightarrow> Inr (a', part_size p', part_data p')))
      else Inr (part, part_size p - word_of_int (int e - int (part_data p)), e))"

partial_function (option) cmp_loop ::
  "state \<Rightarrow> addr \<Rightarrow> addr \<Rightarrow> addr \<Rightarrow> addr \<Rightarrow> addr \<Rightarrow> addr \<Rightarrow> uint \<Rightarrow> (fault + bool) option"
  where
  "cmp_loop s a_part b_part a_start a_end b_start b_end chunklen =
     (if memcmp (mem s) a_start b_start (unat chunklen) \<noteq> 0 then Some (Inr False)
      else
        (case parts s a_part of None \<Rightarrow> Some (Inl InvalidPtr)
         | Some ap \<Rightarrow>
         (case parts s b_part of None \<Rightarrow> Some (Inl InvalidPtr)
          | Some bp \<Rightarrow>
              let a_at_end = (a_end = part_data ap + unat (part_size ap));
                  b_at_end = (b_end = part_data bp + unat (part_size bp))
              in
              if a_at_end \<or> b_at_end then
                if (a_at_end \<and> part_next ap = None) \<or> (b_at_end \<and> part_next bp = None)
                then
                  (if a_at_end \<and> b_at_end \<and> part_next ap = None \<and> part_next bp = None
                   then Some (Inr True)
                   else Some (Inl AssertFail))
                else
                  (case advance s a_part ap a_end of Inl e \<Rightarrow> Some (Inl e)
                   | Inr (a_part', a_len, a_start') \<Rightarrow>
                   (case advance s b_part bp b_end of Inl e \<Rightarrow> Some (Inl e)
                    | Inr (b_part', b_len, b_start') \<Rightarrow>
                        let chunklen' = min a_len b_len in
                        cmp_loop s a_part' b_part' a_start' (a_start' + unat chunklen')
                          b_start' (b_start' + unat chunklen') chunklen'))
              else cmp_loop s a_part b_part a_start a_end b_start b_end chunklen)))"

text \<open>
  The fast check \<^verbatim>\<open>first_byte(str) != first_byte(other) || last_byte(str) != last_byte(other)\<close>,
  evaluated left to right.
\<close>

definition first_or_last_differ :: "state \<Rightarrow> LString \<Rightarrow> LString \<Rightarrow> fault + bool" where
  "first_or_last_differ s l o' =
     (case psg_lstr_first_byte s l of Inl e \<Rightarrow> Inl e
      | Inr fa \<Rightarrow>
      (case psg_lstr_first_byte s o' of Inl e \<Rightarrow> Inl e
       | Inr fb \<Rightarrow>
           if fa \<noteq> fb then Inr True
           else
             (case psg_lstr_last_byte s l of Inl e \<Rightarrow> Inl e
              | Inr la \<Rightarrow>
              (case psg_lstr_last_byte s o' of Inl e \<Rightarrow> Inl e
               | Inr lb \<Rightarrow> Inr (la \<noteq> lb)))))"

text \<open>The set-up of the two windows on the first parts, and the loop.\<close>

definition cmp_windows :: "state \<Rightarrow> LString \<Rightarrow> LString \<Rightarrow> (fault + bool) option" where
  "cmp_windows s l o' =
     (case lstr_start l of None \<Rightarrow> Some (Inl NullDeref)
      | Some a_part \<Rightarrow>
      (case lstr_start o' of None \<Rightarrow> Some (Inl NullDeref)
       | Some b_part \<Rightarrow>
       (case parts s a_part of None \<Rightarrow> Some (Inl InvalidPtr)
        | Some ap \<Rightarrow>
        (case parts s b_part of None \<Rightarrow> Some (Inl InvalidPtr)
         | Some bp \<Rightarrow>
             let chunklen = min (part_size ap) (part_size bp) in
             cmp_loop s a_part b_part
               (part_data ap) (part_data ap + unat chunklen)
               (part_data bp) (part_data bp + unat chunklen)
               chunklen))))"

definition psg_lstr_cmp :: "state \<Rightarrow> addr \<Rightarrow> addr \<Rightarrow> (fault + bool) option" where
  "psg_lstr_cmp s str other =
     (case lstrs s str of None \<Rightarrow> Some (Inl InvalidPtr)
      | Some l \<Rightarrow>
      (case lstrs s other of None \<Rightarrow> Some (Inl InvalidPtr)
       | Some o' \<Rightarrow>
           if lstr_size l \<noteq> lstr_size o' then Some (Inr False)
           else if lstr_size l = 0 then Some (Inr True)
           else
             (case (if 0 < lstr_size l then first_or_last_differ s l o' else Inr False) of
                Inl e \<Rightarrow> Some (Inl e)
              | Inr True \<Rightarrow> Some (Inr False)
              | Inr False \<Rightarrow> cmp_windows s l o')))"

subsection \<open>Hashing\<close>

partial_function (option) hash_loop ::
  "('h \<Rightarrow> byte list \<Rightarrow> 'h) \<Rightarrow> state \<Rightarrow> addr option \<Rightarrow> 'h \<Rightarrow> (fault + 'h) option" where
  "hash_loop upd s part h =
     (case part of None \<Rightarrow> Some (Inr h)
      | Some a \<Rightarrow>
          (case parts s a of None \<Rightarrow> Some (Inl InvalidPtr)
           | Some p \<Rightarrow>
               hash_loop upd s (part_next p)
                 (upd h (bytes (mem s) (part_data p) (unat (part_size p))))))"

definition psg_lstr_hash :: "'h Hasher \<Rightarrow> state \<Rightarrow> addr \<Rightarrow> (fault + uint) option" where
  "psg_lstr_hash H s str =
     (case lstrs s str of None \<Rightarrow> Some (Inl InvalidPtr)
      | Some l \<Rightarrow>
          (case hash_loop (h_update H) s (lstr_start l) (h_init H) of
             None \<Rightarrow> None
           | Some (Inl e) \<Rightarrow> Some (Inl e)
           | Some (Inr h) \<Rightarrow> Some (Inr (h_finalize H h))))"

subsection \<open>Initialisation and the pool\<close>

definition psg_lstr_init :: "state \<Rightarrow> addr \<Rightarrow> state" where
  "psg_lstr_init s str =
     s\<lparr>lstrs := (lstrs s)(str \<mapsto> \<lparr>lstr_start = None, lstr_end = None, lstr_size = 0\<rparr>)\<rparr>"

text \<open>
  Modelled from the spec: the arena allocator \<^verbatim>\<open>psg_palloc\<close> / \<^verbatim>\<open>psg_pnalloc\<close>
  (\<^verbatim>\<open>MemoryKit/palloc.h\<close> is not part of the sources). It is a bump-style allocator whose
  \<open>allocate(size)\<close> never returns null: it hands out the next free address and moves the
  free pointer past the block.
\<close>

definition psg_palloc :: "state \<Rightarrow> nat \<Rightarrow> addr \<times> state" where
  "psg_palloc s n = (pool_next s, s\<lparr>pool_next := pool_next s + n\<rparr>)"

definition psg_pnalloc :: "state \<Rightarrow> nat \<Rightarrow> addr \<times> state" where
  "psg_pnalloc s n = (pool_next s, s\<lparr>pool_next := pool_next s + n\<rparr>)"

text \<open>\<^verbatim>\<open>sizeof(LString::Part)\<close> and \<^verbatim>\<open>sizeof(LString)\<close> on an LP64 platform.\<close>

definition sizeof_Part :: nat where
  "sizeof_Part = 32"

definition sizeof_LString :: nat where
  "sizeof_LString = 24"

text \<open>
  Modelled from the spec: the buffer block's \<open>acquire\<close> and \<open>release\<close>
  (\<^verbatim>\<open>mbuf_block_ref\<close> and \<^verbatim>\<open>mbuf_block_unref\<close>; \<^verbatim>\<open>MemoryKit/mbuf.h\<close> is not part of the
  sources). Acquire adds one to the block's reference count; release takes one away, the
  block being freed when the count reaches zero. Releasing a block that has no reference
  left is a violation of the contract.
\<close>

definition mbuf_block_ref :: "state \<Rightarrow> addr \<Rightarrow> state" where
  "mbuf_block_ref s b = s\<lparr>refcount := (refcount s)(b := refcount s b + 1)\<rparr>"

definition mbuf_block_unref :: "state \<Rightarrow> addr \<Rightarrow> fault + state" where
  "mbuf_block_unref s b =
     (if refcount s b = 0 then Inl AssertFail
      else Inr (s\<lparr>refcount := (refcount s)(b := refcount s b - 1)\<rparr>))"

subsection \<open>Appending\<close>

definition psg_lstr_append_part :: "state \<Rightarrow> addr \<Rightarrow> addr \<Rightarrow> fault + state" where
  "psg_lstr_append_part s str part =
     (case lstrs s str of None \<Rightarrow> Inl InvalidPtr
      | Some l \<Rightarrow>
          (case (case lstr_end l of
                   None \<Rightarrow>
                     Inr (s\<lparr>lstrs := (lstrs s)(str \<mapsto>
                            l\<lparr>lstr_start := Some part, lstr_end := Some part\<rparr>)\<rparr>)
                 | Some e \<Rightarrow>
                     (case parts s e of None \<Rightarrow> Inl InvalidPtr
                      | Some ep \<Rightarrow>
                          Inr (s\<lparr>parts := (parts s)(e \<mapsto> ep\<lparr>part_next := Some part\<rparr>),
                                 lstrs := (lstrs s)(str \<mapsto> l\<lparr>lstr_end := Some part\<rparr>)\<rparr>))) of
             Inl f \<Rightarrow> Inl f
           | Inr s1 \<Rightarrow>
               (case lstrs s1 str of None \<Rightarrow> Inl InvalidPtr
                | Some l1 \<Rightarrow>
                    (case parts s1 part of None \<Rightarrow> Inl InvalidPtr
                     | Some p \<Rightarrow>
                         Inr (s1\<lparr>lstrs := (lstrs s1)(str \<mapsto>
                                    l1\<lparr>lstr_size := lstr_size l1 + part_size p\<rparr>),
                                 parts := (parts s1)(part \<mapsto> p\<lparr>part_next := None\<rparr>)\<rparr>)))))"

text \<open>
  \<^verbatim>\<open>psg_lstr_append(str, pool, buffer, data, size)\<close>. The source leaves \<^verbatim>\<open>part->next\<close> of
  the new part unset here; \<open>psg_lstr_append_part\<close> assigns it before it is ever read.
\<close>

definition psg_lstr_append_mbuf ::
  "state \<Rightarrow> addr \<Rightarrow> mbuf \<Rightarrow> addr \<Rightarrow> uint \<Rightarrow> fault + state" where
  "psg_lstr_append_mbuf s str buffer dat sz =
     (if sz = 0 then Inr s
      else
        (case psg_palloc s sizeof_Part of
           (part, s1) \<Rightarrow>
             let s2 = s1\<lparr>parts := (parts s1)(part \<mapsto>
                        \<lparr>part_next = None, part_mbuf_block = Some (mbuf_block buffer),
                         part_data = dat, part_size = sz\<rparr>)\<rparr>;
                 s3 = mbuf_block_ref s2 (mbuf_block buffer)
             in psg_lstr_append_part s3 str part))"

text \<open>\<^verbatim>\<open>psg_lstr_append(str, pool, buffer)\<close>: the whole window of the buffer.\<close>

definition psg_lstr_append_mbuf_all :: "state \<Rightarrow> addr \<Rightarrow> mbuf \<Rightarrow> fault + state" where
  "psg_lstr_append_mbuf_all s str buffer =
     psg_lstr_append_mbuf s str buffer (mbuf_start buffer)
       (word_of_int (int (mbuf_end buffer) - int (mbuf_start buffer)))"

text \<open>\<^verbatim>\<open>psg_lstr_append(str, pool, data, size)\<close>.\<close>

definition psg_lstr_append :: "state \<Rightarrow> addr \<Rightarrow> addr \<Rightarrow> uint \<Rightarrow> fault + state" where
  "psg_lstr_append s str dat sz =
     (if sz = 0 then Inr s
      else
        (case psg_palloc s sizeof_Part of
           (part, s1) \<Rightarrow>
             let s2 = s1\<lparr>parts := (parts s1)(part \<mapsto>
                        \<lparr>part_next = None, part_mbuf_block = None,
                         part_data = dat, part_size = sz\<rparr>)\<rparr>
             in psg_lstr_append_part s2 str part))"

subsection \<open>Making a string contiguous\<close>

text \<open>
  \<^verbatim>\<open>memcpy\<close>. A write outside the block that \<^verbatim>\<open>psg_pnalloc\<close> returned is undefined
  behaviour in the source; the copy loop below reports it as the fault \<open>BufferOverflow\<close>,
  \<open>lim\<close> being the end of the block.
\<close>

definition memcpy :: "(addr \<Rightarrow> byte) \<Rightarrow> addr \<Rightarrow> addr \<Rightarrow> nat \<Rightarrow> (addr \<Rightarrow> byte)" where
  "memcpy m dst src n = (\<lambda>x. if dst \<le> x \<and> x < dst + n then m (src + (x - dst)) else m x)"

partial_function (option) copy_loop ::
  "state \<Rightarrow> addr option \<Rightarrow> addr \<Rightarrow> addr \<Rightarrow> (fault + addr \<times> state) option" where
  "copy_loop s part pos lim =
     (case part of None \<Rightarrow> Some (Inr (pos, s))
      | Some a \<Rightarrow>
          (case parts s a of None \<Rightarrow> Some (Inl InvalidPtr)
           | Some p \<Rightarrow>
               if lim < pos + unat (part_size p) then Some (Inl BufferOverflow)
               else copy_loop
                      (s\<lparr>mem := memcpy (mem s) pos (part_data p) (unat (part_size p))\<rparr>)
                      (part_next p) (pos + unat (part_size p)) lim))"

definition psg_lstr_null_terminate :: "state \<Rightarrow> addr \<Rightarrow> (fault + addr \<times> state) option" where
  "psg_lstr_null_terminate s str =
     (case lstrs s str of None \<Rightarrow> Some (Inl InvalidPtr)
      | Some l \<Rightarrow>
          (case psg_pnalloc s (unat (lstr_size l + 1)) of
             (dat, s1) \<Rightarrow>
               (case copy_loop s1 (lstr_start l) dat (dat + unat (lstr_size l + 1)) of
                  None \<Rightarrow> None
                | Some (Inl e) \<Rightarrow> Some (Inl e)
                | Some (Inr (pos, s2)) \<Rightarrow>
                    if dat + unat (lstr_size l + 1) \<le> pos then Some (Inl BufferOverflow)
                    else
                      (case psg_palloc (s2\<lparr>mem := (mem s2)(pos := 0)\<rparr>) sizeof_LString of
                         (newstr, s3) \<Rightarrow>
                           (case lstrs (psg_lstr_init s3 newstr) str of
                              None \<Rightarrow> Some (Inl InvalidPtr)
                            | Some l' \<Rightarrow>
                                (case psg_lstr_append (psg_lstr_init s3 newstr) newstr dat
                                        (lstr_size l') of
                                   Inl e \<Rightarrow> Some (Inl e)
                                 | Inr s4 \<Rightarrow> Some (Inr (newstr, s4))))))))"

definition psg_lstr_make_contiguous :: "state \<Rightarrow> addr \<Rightarrow> (fault + addr \<times> state) option" where
  "psg_lstr_make_contiguous s str =
     (case lstrs s str of None \<Rightarrow> Some (Inl InvalidPtr)
      | Some l \<Rightarrow>
          if lstr_size l = 0 \<or> lstr_start l = lstr_end l then Some (Inr (str, s))
          else psg_lstr_null_terminate s str)"

subsection \<open>Teardown\<close>

partial_function (option) deinit_loop ::
  "state \<Rightarrow> addr option \<Rightarrow> (fault + state) option" where
  "deinit_loop s part =
     (case part of None \<Rightarrow> Some (Inr s)
      | Some a \<Rightarrow>
          (case parts s a of None \<Rightarrow> Some (Inl InvalidPtr)
           | Some p \<Rightarrow>
               (case part_mbuf_block p of
                  None \<Rightarrow> deinit_loop s (part_next p)
                | Some b \<Rightarrow>
                    (case mbuf_block_unref s b of Inl e \<Rightarrow> Some (Inl e)
                     | Inr s' \<Rightarrow>
                         (case parts s' a of None \<Rightarrow> Some (Inl InvalidPtr)
                          | Some p' \<Rightarrow> deinit_loop s' (part_next p'))))))"

definition psg_lstr_deinit :: "state \<Rightarrow> addr \<Rightarrow> (fault + state) option" where
  "psg_lstr_deinit s str =
     (case lstrs s str of None \<Rightarrow> Some (Inl InvalidPtr)
      | Some l \<Rightarrow>
          (case deinit_loop s (lstr_start l) of
             None \<Rightarrow> None
           | Some (Inl e) \<Rightarrow> Some (Inl e)
           | Some (Inr s') \<Rightarrow> Some (Inr (psg_lstr_init s' str))))"


section \<open>Well-formed strings and their content\<close>

text \<open>
  \<open>chain h p xs\<close>: following \<^verbatim>\<open>next\<close> from the pointer \<open>p\<close> visits exactly the parts
  \<open>xs\<close> (address and struct), in this order, and then reaches \<^verbatim>\<open>NULL\<close>.
\<close>

fun chain :: "(addr \<rightharpoonup> Part) \<Rightarrow> addr option \<Rightarrow> (addr \<times> Part) list \<Rightarrow> bool" where
  "chain h p [] = (p = None)"
| "chain h p ((a, x) # xs) = (p = Some a \<and> h a = Some x \<and> chain h (part_next x) xs)"

text \<open>The bytes of one part, the concatenated bytes of all parts, and the sum of their sizes.\<close>

definition data_of :: "(addr \<Rightarrow> byte) \<Rightarrow> Part \<Rightarrow> byte list" where
  "data_of m x = bytes m (part_data x) (unat (part_size x))"

definition content :: "state \<Rightarrow> (addr \<times> Part) list \<Rightarrow> byte list" where
  "content s xs = concat (map (\<lambda>(a, x). data_of (mem s) x) xs)"

definition total_size :: "(addr \<times> Part) list \<Rightarrow> nat" where
  "total_size xs = sum_list (map (\<lambda>(a, x). unat (part_size x)) xs)"

definition nonempty_parts :: "(addr \<times> Part) list \<Rightarrow> bool" where
  "nonempty_parts xs = list_all (\<lambda>(a, x). part_size x \<noteq> 0) xs"

text \<open>
  The invariant of the data model, for the LString \<open>l\<close> whose parts are \<open>xs\<close>: the chain from
  \<^verbatim>\<open>start\<close> is \<open>xs\<close> and ends in \<^verbatim>\<open>NULL\<close>; \<^verbatim>\<open>end\<close> is the last part, or \<^verbatim>\<open>NULL\<close> when
  there is none; no part is empty; \<^verbatim>\<open>size\<close> is the sum of the parts' sizes.
\<close>

definition wf_lstr :: "state \<Rightarrow> LString \<Rightarrow> (addr \<times> Part) list \<Rightarrow> bool" where
  "wf_lstr s l xs =
     (chain (parts s) (lstr_start l) xs
      \<and> lstr_end l = (if xs = [] then None else Some (fst (last xs)))
      \<and> list_all (\<lambda>(a, x). part_size x \<noteq> 0) xs
      \<and> unat (lstr_size l) = total_size xs)"

definition empty_lstr :: LString where
  "empty_lstr = \<lparr>lstr_start = None, lstr_end = None, lstr_size = 0\<rparr>"

text \<open>The bytes of a contiguous view.\<close>

definition ss_bytes :: "state \<Rightarrow> StaticString \<Rightarrow> byte list" where
  "ss_bytes s other = bytes (mem s) (ss_data other) (ss_size other)"

subsection \<open>The invariant of the window loop\<close>

text \<open>
  One side of the loop of \<open>psg_lstr_cmp\<close>: the current part \<open>p\<close> at address \<open>part\<close> is
  followed by the parts \<open>rest\<close>, and the window starts at \<open>start\<close> inside the part, with
  \<open>r > 0\<close> bytes left up to the part's end. \<open>remaining\<close> are the bytes not yet compared.
\<close>

definition window_ok ::
  "state \<Rightarrow> addr \<Rightarrow> Part \<Rightarrow> (addr \<times> Part) list \<Rightarrow> addr \<Rightarrow> nat \<Rightarrow> bool" where
  "window_ok s part p rest start r =
     (parts s part = Some p \<and> chain (parts s) (part_next p) rest \<and> nonempty_parts rest
      \<and> part_data p \<le> start \<and> start + r = part_data p + unat (part_size p) \<and> 0 < r)"

definition remaining :: "state \<Rightarrow> addr \<Rightarrow> nat \<Rightarrow> (addr \<times> Part) list \<Rightarrow> byte list" where
  "remaining s start r rest = bytes (mem s) start r @ content s rest"

subsection \<open>Hashers\<close>

text \<open>
  The digest of a byte string fed to the hasher in one run; nothing is fed for the empty
  string.
\<close>

definition hash_content :: "'h Hasher \<Rightarrow> byte list \<Rightarrow> uint" where
  "hash_content H bs =
     h_finalize H (if bs = [] then h_init H else h_update H (h_init H) bs)"

text \<open>A streaming hasher: feeding two runs one after the other is feeding their concatenation.\<close>

definition streaming :: "'h Hasher \<Rightarrow> bool" where
  "streaming H = (\<forall>h xs ys. h_update H (h_update H h xs) ys = h_update H h (xs @ ys))"

text \<open>
  An example hasher (Jenkins' one-at-a-time hash): each byte is mixed into a 32-bit
  accumulator.
\<close>

definition jenkins_step :: "uint \<Rightarrow> byte \<Rightarrow> uint" where
  "jenkins_step h c =
     (let h1 = h + ucast c; h2 = h1 + push_bit 10 h1 in xor h2 (drop_bit 6 h2))"

definition jenkins_final :: "uint \<Rightarrow> uint" where
  "jenkins_final h =
     (let h1 = h + push_bit 3 h; h2 = xor h1 (drop_bit 11 h1) in h2 + push_bit 15 h2)"

definition ex_hasher :: "uint Hasher" where
  "ex_hasher = \<lparr>h_init = 0, h_update = foldl jenkins_step, h_finalize = jenkins_final\<rparr>"

subsection \<open>References held on buffer blocks\<close>

text \<open>The number of parts of \<open>xs\<close> that hold a reference on the block \<open>b\<close>.\<close>

definition block_refs :: "(addr \<times> Part) list \<Rightarrow> addr \<Rightarrow> nat" where
  "block_refs xs b = length (filter (\<lambda>(a, x). part_mbuf_block x = Some b) xs)"

text \<open>Every reference that a part of \<open>xs\<close> holds is counted in its block's reference count.\<close>

definition refs_held :: "state \<Rightarrow> (addr \<times> Part) list \<Rightarrow> bool" where
  "refs_held s xs =
     list_all (\<lambda>(a, x). case part_mbuf_block x of None \<Rightarrow> True
                         | Some b \<Rightarrow> block_refs xs b \<le> refcount s b) xs"

subsection \<open>Sequences of appends\<close>

text \<open>
  The chain after a part has been linked behind its last part: the last part's \<^verbatim>\<open>next\<close>
  now points to \<open>part\<close>.
\<close>

definition relink :: "(addr \<times> Part) list \<Rightarrow> addr \<Rightarrow> (addr \<times> Part) list" where
  "relink xs part =
     (if xs = [] then []
      else butlast xs @ [(fst (last xs), (snd (last xs))\<lparr>part_next := Some part\<rparr>)])"

text \<open>The parts of the chain were allocated from the pool before its free pointer.\<close>

definition pool_fresh :: "state \<Rightarrow> (addr \<times> Part) list \<Rightarrow> bool" where
  "pool_fresh s xs = list_all (\<lambda>(a, x). a < pool_next s) xs"

text \<open>The append operations of the source, and a sequence of them run on one string.\<close>

datatype append_op =
  AppendData addr uint
  | AppendMbuf mbuf addr uint
  | AppendMbufAll mbuf

fun apply_append :: "state \<Rightarrow> addr \<Rightarrow> append_op \<Rightarrow> fault + state" where
  "apply_append s str (AppendData dat sz) = psg_lstr_append s str dat sz"
| "apply_append s str (AppendMbuf buffer dat sz) = psg_lstr_append_mbuf s str buffer dat sz"
| "apply_append s str (AppendMbufAll buffer) = psg_lstr_append_mbuf_all s str buffer"

fun appends :: "state \<Rightarrow> addr \<Rightarrow> append_op list \<Rightarrow> fault + state" where
  "appends s str [] = Inr s"
| "appends s str (x # xs) =
     (case apply_append s str x of Inl e \<Rightarrow> Inl e | Inr s' \<Rightarrow> appends s' str xs)"

text \<open>The length of the byte range that an operation appends.\<close>

fun op_len :: "append_op \<Rightarrow> nat" where
  "op_len (AppendData dat sz) = unat sz"
| "op_len (AppendMbuf buffer dat sz) = unat sz"
| "op_len (AppendMbufAll buffer) = mbuf_end buffer - mbuf_start buffer"

text \<open>The window of a buffer does not end before it starts.\<close>

fun valid_op :: "append_op \<Rightarrow> bool" where
  "valid_op (AppendMbufAll buffer) = (mbuf_start buffer \<le> mbuf_end buffer)"
| "valid_op _ = True"

definition total_len :: "append_op list \<Rightarrow> nat" where
  "total_len ops = sum_list (map op_len ops)"

text \<open>The state that a run of appends returns, read at one LString.\<close>

definition result_lstr :: "fault + state \<Rightarrow> addr \<Rightarrow> LString option" where
  "result_lstr r str = (case r of Inl e \<Rightarrow> None | Inr s \<Rightarrow> lstrs s str)"

subsection \<open>Copying into the pool\<close>

text \<open>The memory after the bytes of the parts \<open>xs\<close> have been copied, one after the other, to \<open>pos\<close>.\<close>

fun copied :: "(addr \<Rightarrow> byte) \<Rightarrow> addr \<Rightarrow> (addr \<times> Part) list \<Rightarrow> (addr \<Rightarrow> byte)" where
  "copied m pos [] = m"
| "copied m pos ((a, x) # xs) =
     copied (memcpy m pos (part_data x) (unat (part_size x))) (pos + unat (part_size x)) xs"

text \<open>
  The free memory of the pool, from \<open>pool_next\<close> on, holds nothing of the string: neither
  the LString struct, nor a part, nor a byte of a part's data.
\<close>

definition pool_separate :: "state \<Rightarrow> addr \<Rightarrow> (addr \<times> Part) list \<Rightarrow> bool" where
  "pool_separate s str xs =
     (str < pool_next s
      \<and> list_all (\<lambda>(a, x). a < pool_next s
                    \<and> part_data x + unat (part_size x) \<le> pool_next s) xs)"

definition data_below :: "addr \<Rightarrow> (addr \<times> Part) list \<Rightarrow> bool" where
  "data_below b xs = list_all (\<lambda>(a, x). part_data x + unat (part_size x) \<le> b) xs"


section \<open>Example strings\<close>

text \<open>
  The bytes \<open>abc\<close> twice in memory; \<open>ex_A\<close> is \<open>ab\<close>, \<open>c\<close> (the first part backed by
  block 7, whose reference count is 2), \<open>ex_B\<close> is \<open>a\<close>, \<open>bc\<close>, and \<open>ex_D\<close> is the single
  part \<open>bc\<close>.
\<close>

definition ex_mem :: "addr \<Rightarrow> byte" where
  "ex_mem = (\<lambda>_. 0)(100 := 97, 101 := 98, 102 := 99, 200 := 97, 201 := 98, 202 := 99)"

definition ex_a1 :: Part where
  "ex_a1 = \<lparr>part_next = Some 12, part_mbuf_block = Some 7, part_data = 100, part_size = 2\<rparr>"

definition ex_a2 :: Part where
  "ex_a2 = \<lparr>part_next = None, part_mbuf_block = None, part_data = 102, part_size = 1\<rparr>"

definition ex_b1 :: Part where
  "ex_b1 = \<lparr>part_next = Some 14, part_mbuf_block = None, part_data = 200, part_size = 1\<rparr>"

definition ex_b2 :: Part where
  "ex_b2 = \<lparr>part_next = None, part_mbuf_block = None, part_data = 201, part_size = 2\<rparr>"

definition ex_A :: LString where
  "ex_A = \<lparr>lstr_start = Some 11, lstr_end = Some 12, lstr_size = 3\<rparr>"

definition ex_B :: LString where
  "ex_B = \<lparr>lstr_start = Some 13, lstr_end = Some 14, lstr_size = 3\<rparr>"

definition ex_D :: LString where
  "ex_D = \<lparr>lstr_start = Some 14, lstr_end = Some 14, lstr_size = 2\<rparr>"

definition ex_state :: state where
  "ex_state =
     \<lparr>lstrs = [20 \<mapsto> ex_A, 21 \<mapsto> ex_B, 23 \<mapsto> ex_D],
      parts = [11 \<mapsto> ex_a1, 12 \<mapsto> ex_a2, 13 \<mapsto> ex_b1, 14 \<mapsto> ex_b2],
      mem = ex_mem,
      refcount = (\<lambda>_. 0)(7 := 2),
      pool_next = 1000\<rparr>"

text \<open>Two views of the second copy of the bytes: \<open>abc\<close> and \<open>a\<close>.\<close>

definition ex_view :: StaticString where
  "ex_view = \<lparr>ss_data = 200, ss_size = 3\<rparr>"

definition ex_view_a :: StaticString where
  "ex_view_a = \<lparr>ss_data = 200, ss_size = 1\<rparr>"

text \<open>
  Appends of 2 bytes, of no byte and of the one byte of a buffer's window; and two
  appends of \<open>2^31\<close> bytes each.
\<close>

definition ex_ops :: "append_op list" where
  "ex_ops =
     [AppendData 100 2,
      AppendMbuf \<lparr>mbuf_block = 7, mbuf_start = 102, mbuf_end = 103\<rparr> 102 0,
      AppendMbufAll \<lparr>mbuf_block = 7, mbuf_start = 102, mbuf_end = 103\<rparr>]"

definition ex_overflow_ops :: "append_op list" where
  "ex_overflow_ops = [AppendData 100 2147483648, AppendData 100 2147483648]"

text \<open>
  A string of \<open>2^32 - 1\<close> bytes in two parts of \<open>2^31\<close> and \<open>2^31 - 1\<close> bytes, below the
  free memory of the pool.
\<close>

definition ex_c1 :: Part where
  "ex_c1 = \<lparr>part_next = Some 16, part_mbuf_block = None, part_data = 100,
            part_size = 2147483648\<rparr>"

definition ex_c2 :: Part where
  "ex_c2 = \<lparr>part_next = None, part_mbuf_block = None, part_data = 100,
            part_size = 2147483647\<rparr>"

definition ex_C :: LString where
  "ex_C = \<lparr>lstr_start = Some 15, lstr_end = Some 16, lstr_size = 4294967295\<rparr>"

definition ex_big_state :: state where
  "ex_big_state =
     \<lparr>lstrs = [22 \<mapsto> ex_C],
      parts = [15 \<mapsto> ex_c1, 16 \<mapsto> ex_c2],
      mem = (\<lambda>_. 0),
      refcount = (\<lambda>_. 0),
      pool_next = 8589934592\<rparr>"

text \<open>The loops are evaluated on these examples through their defining equations.\<close>

declare cmp_ss_loop.simps [code]
declare cmp_n_loop.simps [code]
declare cmp_loop.simps [code]
declare hash_loop.simps [code]
declare copy_loop.simps [code]
declare deinit_loop.simps [code]


section \<open>Basic lemmas\<close>

lemma unat_uint_less: "unat (w :: uint) < 2 ^ 32"
  using unsigned_less [of w, where 'a = nat] by simp

lemma length_bytes [simp]: "length (bytes m a n) = n"
  by (simp add: bytes_def)

lemma bytes_0 [simp]: "bytes m a 0 = []"
  by (simp add: bytes_def)

lemma bytes_add: "bytes m a (k + n) = bytes m a k @ bytes m (a + k) n"
proof -
  have "[a ..< a + (k + n)] = [a ..< a + k] @ [a + k ..< a + k + n]"
    by (metis add.assoc le_add1 upt_add_eq_append)
  then show ?thesis by (simp add: bytes_def)
qed

lemma bytes_nth: "i < n \<Longrightarrow> bytes m a n ! i = m (a + i)"
  by (simp add: bytes_def)

lemma bytes_hd: "0 < n \<Longrightarrow> hd (bytes m a n) = m a"
  by (cases n) (simp_all add: bytes_def upt_rec)

lemma bytes_last: "0 < n \<Longrightarrow> last (bytes m a n) = m (a + (n - 1))"
  by (cases n) (simp_all add: bytes_def)

lemma take_bytes: "take k (bytes m a n) = bytes m a (min k n)"
  by (simp add: bytes_def take_map min_def)

lemma cmp_bytes_eq: "length xs = length ys \<Longrightarrow> cmp_bytes xs ys = 0 \<longleftrightarrow> xs = ys"
  by (induction xs ys rule: list_induct2) auto

lemma memcmp_eq: "memcmp m a b n = 0 \<longleftrightarrow> bytes m a n = bytes m b n"
  by (simp add: memcmp_def cmp_bytes_eq)

lemma length_data_of [simp]: "length (data_of m x) = unat (part_size x)"
  by (simp add: data_of_def)

lemma length_content: "length (content s xs) = total_size xs"
  by (induction xs) (auto simp: content_def total_size_def)

lemma content_Cons: "content s ((a, x) # xs) = data_of (mem s) x @ content s xs"
  by (simp add: content_def)

lemma total_size_Cons: "total_size ((a, x) # xs) = unat (part_size x) + total_size xs"
  by (simp add: total_size_def)

lemma cmp_ss_loop_correct:
  "chain (parts s) p xs \<Longrightarrow>
   cmp_ss_loop s p b = Some (Inr (content s xs = bytes (mem s) b (total_size xs)))"
proof (induction xs arbitrary: p b)
  case Nil
  then show ?case
    by (subst cmp_ss_loop.simps) (simp add: content_def total_size_def)
next
  case (Cons ax xs)
  obtain a x where ax: "ax = (a, x)" by (cases ax)
  from Cons.prems ax have p: "p = Some a" and h: "parts s a = Some x"
    and ch: "chain (parts s) (part_next x) xs" by simp_all
  let ?n = "unat (part_size x)"
  have split: "bytes (mem s) b (?n + total_size xs)
      = bytes (mem s) b ?n @ bytes (mem s) (b + ?n) (total_size xs)"
    by (rule bytes_add)
  have eq: "(content s (ax # xs) = bytes (mem s) b (total_size (ax # xs)))
      \<longleftrightarrow> (data_of (mem s) x = bytes (mem s) b ?n
           \<and> content s xs = bytes (mem s) (b + ?n) (total_size xs))"
    by (simp add: ax content_Cons total_size_Cons split)
  show ?case
    by (subst cmp_ss_loop.simps)
       (simp add: p h memcmp_eq eq Cons.IH [OF ch] data_of_def)
qed


lemma chain_last:
  "chain h p xs \<Longrightarrow> xs \<noteq> [] \<Longrightarrow> h (fst (last xs)) = Some (snd (last xs))"
  by (induction xs arbitrary: p) (auto split: if_splits)

lemma content_Nil [simp]: "content s [] = []"
  by (simp add: content_def)

lemma total_size_Nil [simp]: "total_size [] = 0"
  by (simp add: total_size_def)

lemma content_snoc: "content s (xs @ [(a, x)]) = content s xs @ data_of (mem s) x"
  by (simp add: content_def)

lemma wf_nonempty:
  assumes "wf_lstr s l xs" "lstr_size l \<noteq> 0"
  shows "xs \<noteq> []"
  using assms by (auto simp: wf_lstr_def unat_eq_0)

lemma first_byte_wf:
  assumes wf: "wf_lstr s l xs" and nz: "lstr_size l \<noteq> 0"
  shows "psg_lstr_first_byte s l = Inr (hd (content s xs))"
proof -
  from wf_nonempty [OF wf nz] obtain a x ys where xs: "xs = (a, x) # ys"
    by (cases xs) auto
  from wf xs have st: "lstr_start l = Some a" and h: "parts s a = Some x"
    and sz: "part_size x \<noteq> 0"
    by (simp_all add: wf_lstr_def)
  from sz have pos: "0 < unat (part_size x)" by (simp add: unat_gt_0)
  then have ne: "data_of (mem s) x \<noteq> []"
    by (metis length_data_of length_greater_0_conv)
  have "hd (content s xs) = hd (data_of (mem s) x)"
    using ne by (simp add: xs content_Cons)
  also have "\<dots> = mem s (part_data x)"
    using pos by (simp add: data_of_def bytes_hd)
  finally show ?thesis
    by (simp add: psg_lstr_first_byte_def get_part_def st h)
qed

lemma last_byte_wf:
  assumes wf: "wf_lstr s l xs" and nz: "lstr_size l \<noteq> 0"
  shows "psg_lstr_last_byte s l = Inr (last (content s xs))"
proof -
  have ne: "xs \<noteq> []" by (rule wf_nonempty [OF wf nz])
  then obtain ys a x where xs: "xs = ys @ [(a, x)]"
    by (metis rev_exhaust surj_pair)
  from wf ne have en: "lstr_end l = Some (fst (last xs))"
    and ch: "chain (parts s) (lstr_start l) xs"
    and all: "list_all (\<lambda>(a, x). part_size x \<noteq> 0) xs"
    by (simp_all add: wf_lstr_def)
  from chain_last [OF ch ne] have h: "parts s a = Some x" by (simp add: xs)
  from all have sz: "part_size x \<noteq> 0" by (simp add: xs)
  then have pos: "0 < unat (part_size x)" by (simp add: unat_gt_0)
  then have dne: "data_of (mem s) x \<noteq> []"
    by (metis length_data_of length_greater_0_conv)
  have m1: "unat (part_size x - 1) = unat (part_size x) - 1"
    using sz by (simp add: unat_minus_one)
  have "last (content s xs) = last (data_of (mem s) x)"
    using dne by (simp add: xs content_snoc)
  also have "\<dots> = mem s (part_data x + (unat (part_size x) - 1))"
    using pos by (simp add: data_of_def bytes_last)
  finally show ?thesis
    using en by (simp add: psg_lstr_last_byte_def get_part_def xs h m1)
qed

lemma ex_wf_A: "wf_lstr ex_state ex_A [(11, ex_a1), (12, ex_a2)]"
  by code_simp

lemma ex_wf_B: "wf_lstr ex_state ex_B [(13, ex_b1), (14, ex_b2)]"
  by code_simp

lemma ex_wf_D: "wf_lstr ex_state ex_D [(14, ex_b2)]"
  by code_simp

lemma ex_content_A: "content ex_state [(11, ex_a1), (12, ex_a2)] = [97, 98, 99]"
  by code_simp

lemma ex_content_B: "content ex_state [(13, ex_b1), (14, ex_b2)] = [97, 98, 99]"
  by code_simp

lemma ex_view_bytes: "ss_bytes ex_state ex_view = [97, 98, 99]"
  by code_simp



section \<open>Comparison with a contiguous view, full length\<close>

text \<open>
  Claim C4. For a well-formed LString \<open>str\<close> and a contiguous view \<open>other\<close>,
  \<open>psg_lstr_cmp(str, other)\<close> returns true if and only if \<open>str->size\<close> equals
  \<open>other.size()\<close> and the concatenation of the parts' bytes equals the bytes of \<open>other\<close>.
  On a length mismatch it returns false whatever the byte memory and the parts hold: no
  byte is scanned.
\<close>

theorem psg_lstr_cmp_ss_correct:
  assumes l: "lstrs s str = Some l" and wf: "wf_lstr s l xs"
  shows "psg_lstr_cmp_ss s str other
           = Some (Inr (unat (lstr_size l) = ss_size other \<and> content s xs = ss_bytes s other))
         \<and> (unat (lstr_size l) \<noteq> ss_size other \<longrightarrow>
              (\<forall>m h. psg_lstr_cmp_ss (s\<lparr>mem := m, parts := h\<rparr>) str other = Some (Inr False)))"
proof (intro conjI impI allI)
  fix m h
  assume "unat (lstr_size l) \<noteq> ss_size other"
  then show "psg_lstr_cmp_ss (s\<lparr>mem := m, parts := h\<rparr>) str other = Some (Inr False)"
    by (simp add: psg_lstr_cmp_ss_def l)
next
  from wf have ch: "chain (parts s) (lstr_start l) xs"
    and tot: "unat (lstr_size l) = total_size xs"
    by (simp_all add: wf_lstr_def)
  note loop = cmp_ss_loop_correct [OF ch, of "ss_data other"]
  show "psg_lstr_cmp_ss s str other
      = Some (Inr (unat (lstr_size l) = ss_size other \<and> content s xs = ss_bytes s other))"
  proof (cases "unat (lstr_size l) = ss_size other")
    case False
    then show ?thesis by (simp add: psg_lstr_cmp_ss_def l)
  next
    case eq: True
    show ?thesis
    proof (cases "lstr_size l = 0")
      case True
      with eq tot loop show ?thesis
        by (simp add: psg_lstr_cmp_ss_def l ss_bytes_def)
    next
      case nz: False
      then have pos: "0 < lstr_size l" by (simp add: word_greater_zero_iff)
      from nz eq have n: "0 < ss_size other" by (metis unat_gt_0)
      have cne: "content s xs \<noteq> []"
        using nz tot length_content [of s xs] by (auto simp: unat_eq_0)
      have hd_o: "hd (ss_bytes s other) = mem s (ss_data other)"
        using n by (simp add: ss_bytes_def bytes_hd)
      have last_o: "last (ss_bytes s other) = mem s (ss_data other + (ss_size other - 1))"
        using n by (simp add: ss_bytes_def bytes_last)
      have differ: "content s xs \<noteq> ss_bytes s other"
        if "hd (content s xs) \<noteq> mem s (ss_data other)
            \<or> last (content s xs) \<noteq> mem s (ss_data other + (ss_size other - 1))"
        using that hd_o last_o by auto
      have loop': "cmp_ss_loop s (lstr_start l) (ss_data other)
          = Some (Inr (content s xs = ss_bytes s other))"
        using loop eq tot by (simp add: ss_bytes_def)
      show ?thesis
        using eq differ
        by (auto simp: psg_lstr_cmp_ss_def l pos first_byte_wf [OF wf nz]
              last_byte_wf [OF wf nz] loop' split: bool.splits)
    qed
  qed
qed



theorem psg_lstr_cmp_ss_correct_witness:
  "lstrs ex_state 20 = Some ex_A \<and> wf_lstr ex_state ex_A [(11, ex_a1), (12, ex_a2)]
   \<and> psg_lstr_cmp_ss ex_state 20 ex_view = Some (Inr True)
   \<and> unat (lstr_size ex_A) \<noteq> ss_size ex_view_a
   \<and> psg_lstr_cmp_ss ex_state 20 ex_view_a = Some (Inr False)
   \<and> psg_lstr_cmp_ss (ex_state\<lparr>mem := \<lambda>_. 0, parts := Map.empty\<rparr>) 20 ex_view_a
       = Some (Inr False)"
proof -
  have l: "lstrs ex_state 20 = Some ex_A" by (simp add: ex_state_def)
  have sz: "unat (lstr_size ex_A) = ss_size ex_view" by (simp add: ex_A_def ex_view_def)
  have ne: "unat (lstr_size ex_A) \<noteq> ss_size ex_view_a"
    by (simp add: ex_A_def ex_view_a_def)
  show ?thesis
    using psg_lstr_cmp_ss_correct [OF l ex_wf_A, of ex_view]
      psg_lstr_cmp_ss_correct [OF l ex_wf_A, of ex_view_a] l ex_wf_A ne
    by (simp add: sz ex_content_A ex_view_bytes)
qed

section \<open>Comparison with a bounded prefix of a contiguous view\<close>

lemma take_content_Cons:
  "take r (content s ((a, x) # xs))
     = bytes (mem s) (part_data x) (min r (unat (part_size x)))
       @ take (r - unat (part_size x)) (content s xs)"
  by (simp add: content_Cons data_of_def take_bytes)

lemma bytes_split_min:
  "bytes m b r = bytes m b (min r n) @ bytes m (b + min r n) (r - n)"
proof -
  have "r = min r n + (r - n)" by simp
  then show ?thesis by (metis bytes_add)
qed

lemma cmp_n_loop_correct:
  "chain (parts s) p xs \<Longrightarrow> unat checked \<le> unat sz \<Longrightarrow>
   unat sz - unat checked \<le> total_size xs \<Longrightarrow>
   cmp_n_loop s p b checked sz
     = Some (Inr (take (unat sz - unat checked) (content s xs)
                  = bytes (mem s) b (unat sz - unat checked)))"
proof (induction xs arbitrary: p b checked)
  case Nil
  then show ?case
    by (subst cmp_n_loop.simps) simp
next
  case (Cons ax xs)
  obtain a x where ax: "ax = (a, x)" by (cases ax)
  from Cons.prems ax have p: "p = Some a" and h: "parts s a = Some x"
    and ch: "chain (parts s) (part_next x) xs" by simp_all
  let ?r = "unat sz - unat checked"
  let ?n = "unat (part_size x)"
  show ?case
  proof (cases "checked < sz")
    case False
    with Cons.prems(2) have "?r = 0" by (simp add: word_less_nat_alt)
    with False show ?thesis
      by (subst cmp_n_loop.simps) (simp add: p)
  next
    case True
    define ls where "ls = min (sz - checked) (part_size x)"
    have le: "checked \<le> sz" using True by simp
    have sub: "unat (sz - checked) = ?r" using le by (simp add: unat_sub)
    have uls: "unat ls = min ?r ?n"
      by (simp add: ls_def sub [symmetric] min_def word_le_nat_alt)
    have "unat checked + unat ls \<le> unat sz"
      using uls Cons.prems(2) by simp
    moreover have "unat sz < 2 ^ 32"
      using unsigned_less [of sz] by simp
    ultimately have add: "unat (checked + ls) = unat checked + unat ls"
      by (simp add: unat_add_lem [THEN iffD1])
    have r': "unat sz - unat (checked + ls) = ?r - ?n"
      using add uls by (simp add: min_def)
    have c2: "unat (checked + ls) \<le> unat sz"
      using add \<open>unat checked + unat ls \<le> unat sz\<close> by simp
    have c3: "unat sz - unat (checked + ls) \<le> total_size xs"
      using Cons.prems(3) r' by (simp add: ax total_size_Cons)
    note IH = Cons.IH [OF ch c2 c3, of "b + unat ls"]
    have eq: "(take ?r (content s (ax # xs)) = bytes (mem s) b ?r)
        \<longleftrightarrow> (bytes (mem s) (part_data x) (min ?r ?n) = bytes (mem s) b (min ?r ?n)
            \<and> take (?r - ?n) (content s xs) = bytes (mem s) (b + min ?r ?n) (?r - ?n))"
      by (subst bytes_split_min [of _ _ _ ?n]) (simp add: ax take_content_Cons)
    show ?thesis
      using True IH
      by (subst cmp_n_loop.simps)
         (simp add: p h ls_def [symmetric] memcmp_eq eq uls r' Let_def)
  qed
qed


lemma chain_None [simp]: "chain h None xs \<longleftrightarrow> xs = []"
  by (cases xs) auto

lemma chain_last_next:
  "chain h p xs \<Longrightarrow> xs \<noteq> [] \<Longrightarrow> part_next (snd (last xs)) = None"
  by (induction xs arbitrary: p) (auto split: if_splits)

lemma wf_single:
  assumes wf: "wf_lstr s l xs" and ne: "xs \<noteq> []" and se: "lstr_start l = lstr_end l"
  shows "\<exists>a x. xs = [(a, x)]"
proof -
  from ne obtain a x ys where xs: "xs = (a, x) # ys" by (cases xs) auto
  from wf have ch: "chain (parts s) (lstr_start l) xs"
    and en: "lstr_end l = Some (fst (last xs))"
    using ne by (simp_all add: wf_lstr_def)
  from ch xs have st: "lstr_start l = Some a" and h: "parts s a = Some x"
    and ch': "chain (parts s) (part_next x) ys" by simp_all
  from se st en have "fst (last xs) = a" by simp
  with chain_last [OF ch ne] h have "snd (last xs) = x" by simp
  with chain_last_next [OF ch ne] have "part_next x = None" by simp
  with ch' have "ys = []" by simp
  with xs show ?thesis by simp
qed

lemma cmp_n_noclamp:
  assumes l: "lstrs s str = Some l" and wf: "wf_lstr s l xs"
    and n1: "unat n \<le> unat (lstr_size l)" and n2: "unat n \<le> ss_size other"
  shows "psg_lstr_cmp_n s str other n
           = Some (Inr (take (unat n) (content s xs) = take (unat n) (ss_bytes s other)))"
proof (cases "n = 0")
  case True
  then show ?thesis by (simp add: psg_lstr_cmp_n_def l)
next
  case nz: False
  then have npos: "0 < unat n" by (simp add: unat_gt_0)
  from wf have ch: "chain (parts s) (lstr_start l) xs"
    and tot: "unat (lstr_size l) = total_size xs"
    by (simp_all add: wf_lstr_def)
  have lnz: "lstr_size l \<noteq> 0" using npos n1 by (auto simp: unat_eq_0)
  have ne: "xs \<noteq> []" by (rule wf_nonempty [OF wf lnz])
  have noclamp: "\<not> lstr_size l < n" using n1 by (simp add: word_less_nat_alt)
  have nolt: "\<not> ss_size other < unat n" using n2 by simp
  have lpos: "0 < lstr_size l" using lnz by (simp add: word_greater_zero_iff)
  have opos: "0 < ss_size other" using npos n2 by simp
  have tk_o: "take (unat n) (ss_bytes s other) = bytes (mem s) (ss_data other) (unat n)"
    using n2 by (simp add: ss_bytes_def take_bytes min_def)
  have len_c: "length (content s xs) = unat (lstr_size l)"
    by (simp add: length_content tot)
  have loop: "cmp_n_loop s (lstr_start l) (ss_data other) 0 n
      = Some (Inr (take (unat n) (content s xs) = take (unat n) (ss_bytes s other)))"
    using cmp_n_loop_correct [OF ch, of 0 n "ss_data other"] n1 tot
    by (simp add: tk_o)
  have cne: "content s xs \<noteq> []" using len_c lnz by (auto simp: unat_eq_0)
  have hd_c: "hd (take (unat n) (content s xs)) = hd (content s xs)"
    using npos by (cases "content s xs") (simp_all add: take_Suc_conv_app_nth hd_take)
  have hd_o: "hd (take (unat n) (ss_bytes s other)) = mem s (ss_data other)"
    using npos by (simp add: tk_o bytes_hd)
  have first_differ: "take (unat n) (content s xs) \<noteq> take (unat n) (ss_bytes s other)"
    if "hd (content s xs) \<noteq> mem s (ss_data other)"
    using that hd_c hd_o by metis
  have m1: "unat (n - 1) = unat n - 1" using nz by (simp add: unat_minus_one)
  have last_differ: "take (unat n) (content s xs) \<noteq> take (unat n) (ss_bytes s other)"
    if se: "lstr_start l = lstr_end l"
      and d: "\<And>a x. xs = [(a, x)] \<Longrightarrow>
        mem s (part_data x + unat (n - 1)) \<noteq> mem s (ss_data other + unat (n - 1))"
  proof -
    from wf_single [OF wf ne se] obtain a x where xs: "xs = [(a, x)]" by blast
    have c: "content s xs = bytes (mem s) (part_data x) (unat (part_size x))"
      by (simp add: xs content_def data_of_def)
    have "unat n \<le> unat (part_size x)" using n1 tot by (simp add: xs total_size_def)
    then have "take (unat n) (content s xs) ! (unat n - 1) = mem s (part_data x + (unat n - 1))"
      using npos by (simp add: c take_bytes min_def bytes_nth)
    moreover have "take (unat n) (ss_bytes s other) ! (unat n - 1)
        = mem s (ss_data other + (unat n - 1))"
      using npos by (simp add: tk_o bytes_nth)
    ultimately show ?thesis using d [OF xs] by (metis m1)
  qed
  have start: "get_part s (lstr_start l) = Inr (snd (hd xs))"
    using ch ne by (cases xs) (auto simp: get_part_def)
  have start': "get_part s (lstr_end l) = Inr (snd (hd xs))" if "lstr_start l = lstr_end l"
    using start that by simp
  show ?thesis
  proof (cases "hd (content s xs) = mem s (ss_data other)")
    case False
    with first_differ show ?thesis
      by (simp add: psg_lstr_cmp_n_def l nz noclamp nolt lpos opos first_byte_wf [OF wf lnz])
  next
    case fb: True
    show ?thesis
    proof (cases "lstr_start l = lstr_end l
        \<and> mem s (part_data (snd (hd xs)) + unat (n - 1)) \<noteq> mem s (ss_data other + unat (n - 1))")
      case True
      then have "take (unat n) (content s xs) \<noteq> take (unat n) (ss_bytes s other)"
        by (intro last_differ) auto
      with True fb show ?thesis
        by (simp add: psg_lstr_cmp_n_def l nz noclamp nolt lpos opos
              first_byte_wf [OF wf lnz] start start')
    next
      case False
      with fb loop show ?thesis
        by (auto simp: psg_lstr_cmp_n_def l nz noclamp nolt lpos opos
              first_byte_wf [OF wf lnz] start start')
    qed
  qed
qed


text \<open>
  Claim C3. For a well-formed LString \<open>str\<close>, a contiguous view \<open>other\<close> and a bound
  \<open>n\<close> with \<open>n \<le> str->size\<close> and \<open>n \<le> other.size()\<close>,
  \<open>psg_lstr_cmp(str, other, n)\<close> returns true if and only if the first \<open>n\<close> bytes of the
  concatenated content of \<open>str\<close> equal the first \<open>n\<close> bytes of \<open>other\<close>; for \<open>n = 0\<close> it
  returns true.
\<close>

theorem psg_lstr_cmp_n_prefix:
  assumes "lstrs s str = Some l" and "wf_lstr s l xs"
    and "unat n \<le> unat (lstr_size l)" and "unat n \<le> ss_size other"
  shows "psg_lstr_cmp_n s str other n
           = Some (Inr (take (unat n) (content s xs) = take (unat n) (ss_bytes s other)))
         \<and> (n = 0 \<longrightarrow> psg_lstr_cmp_n s str other n = Some (Inr True))"
  using assms by (simp add: cmp_n_noclamp)

theorem psg_lstr_cmp_n_prefix_witness:
  "lstrs ex_state 20 = Some ex_A \<and> wf_lstr ex_state ex_A [(11, ex_a1), (12, ex_a2)]
   \<and> unat (2 :: uint) \<le> unat (lstr_size ex_A) \<and> unat (2 :: uint) \<le> ss_size ex_view
   \<and> psg_lstr_cmp_n ex_state 20 ex_view 2 = Some (Inr True)
   \<and> psg_lstr_cmp_n ex_state 20 ex_view 0 = Some (Inr True)"
proof -
  have l: "lstrs ex_state 20 = Some ex_A" by (simp add: ex_state_def)
  have n1: "unat (2 :: uint) \<le> unat (lstr_size ex_A)" by (simp add: ex_A_def)
  have n2: "unat (2 :: uint) \<le> ss_size ex_view" by (simp add: ex_view_def)
  have z1: "unat (0 :: uint) \<le> unat (lstr_size ex_A)"
    and z2: "unat (0 :: uint) \<le> ss_size ex_view" by simp_all
  show ?thesis
    using psg_lstr_cmp_n_prefix [OF l ex_wf_A n1 n2]
      psg_lstr_cmp_n_prefix [OF l ex_wf_A z1 z2] l ex_wf_A n1 n2
    by (simp add: ex_content_A ex_view_bytes)
qed

text \<open>
  Claim C2, as amended. When the bound \<open>n\<close> exceeds both \<open>str->size\<close> and
  \<open>other.size()\<close>, it is clamped to the larger of the two, so the comparison returns true
  if and only if the two sizes are equal and the first \<open>min(str->size, other.size())\<close>
  bytes of both operands are equal: operands of different length compare unequal, as
  with \<^verbatim>\<open>strncmp\<close>.
\<close>

theorem psg_lstr_cmp_n_clamped:
  assumes l: "lstrs s str = Some l" and wf: "wf_lstr s l xs"
    and n1: "unat (lstr_size l) < unat n" and n2: "ss_size other < unat n"
  shows "psg_lstr_cmp_n s str other n
           = Some (Inr (unat (lstr_size l) = ss_size other
                        \<and> take (min (unat (lstr_size l)) (ss_size other)) (content s xs)
                          = take (min (unat (lstr_size l)) (ss_size other)) (ss_bytes s other)))"
proof -
  define c :: uint where "c = of_nat (max (unat (lstr_size l)) (ss_size other))"
  have "unat n < 2 ^ 32" using unsigned_less [of n] by simp
  with n1 n2 have "max (unat (lstr_size l)) (ss_size other) < 2 ^ LENGTH(32)" by simp
  then have uc: "unat c = max (unat (lstr_size l)) (ss_size other)"
    unfolding c_def by (simp add: unat_of_nat)
  have clamp: "lstr_size l < n \<and> ss_size other < unat n"
    using n1 n2 by (simp add: word_less_nat_alt)
  show ?thesis
  proof (cases "unat (lstr_size l) = ss_size other")
    case False
    then have "lstr_size l < c \<or> ss_size other < unat c"
      by (auto simp: word_less_nat_alt uc)
    moreover have "c \<noteq> 0" using False uc by (auto simp: unat_eq_0 max_def split: if_splits)
    ultimately show ?thesis
      using False clamp by (simp add: psg_lstr_cmp_n_def l c_def [symmetric])
  next
    case eq: True
    then have cl: "c = lstr_size l"
      using uc by (simp add: word_unat_eq_iff)
    have same: "psg_lstr_cmp_n s str other n = psg_lstr_cmp_n s str other c"
      using clamp by (simp add: psg_lstr_cmp_n_def l c_def [symmetric] cl Let_def)
    have "psg_lstr_cmp_n s str other c
        = Some (Inr (take (unat c) (content s xs) = take (unat c) (ss_bytes s other)))"
      by (rule cmp_n_noclamp [OF l wf]) (simp_all add: cl eq)
    with same eq show ?thesis by (simp add: cl)
  qed
qed

theorem psg_lstr_cmp_n_clamped_witness:
  "lstrs ex_state 20 = Some ex_A \<and> wf_lstr ex_state ex_A [(11, ex_a1), (12, ex_a2)]
   \<and> unat (lstr_size ex_A) < unat (5 :: uint) \<and> ss_size ex_view < unat (5 :: uint)
   \<and> psg_lstr_cmp_n ex_state 20 ex_view 5 = Some (Inr True)"
proof -
  have l: "lstrs ex_state 20 = Some ex_A" by (simp add: ex_state_def)
  have n1: "unat (lstr_size ex_A) < unat (5 :: uint)" by (simp add: ex_A_def)
  have n2: "ss_size ex_view < unat (5 :: uint)" by (simp add: ex_view_def)
  have sz: "unat (lstr_size ex_A) = 3" "ss_size ex_view = 3"
    by (simp_all add: ex_A_def ex_view_def)
  show ?thesis
    using psg_lstr_cmp_n_clamped [OF l ex_wf_A n1 n2] l ex_wf_A n1 n2
    by (simp add: sz ex_content_A ex_view_bytes)
qed

text \<open>
  Claim C2 as first stated (true whenever the bytes of the overlap are equal) fails for
  \<open>abc\<close> against the view \<open>a\<close> with the bound 5: the overlap of one byte is equal and
  the comparison returns false.
\<close>

theorem psg_lstr_cmp_n_overlap_counterexample:
  "lstrs ex_state 20 = Some ex_A \<and> wf_lstr ex_state ex_A [(11, ex_a1), (12, ex_a2)]
   \<and> unat (lstr_size ex_A) < unat (5 :: uint) \<and> ss_size ex_view_a < unat (5 :: uint)
   \<and> take (min (unat (lstr_size ex_A)) (ss_size ex_view_a))
        (content ex_state [(11, ex_a1), (12, ex_a2)])
      = take (min (unat (lstr_size ex_A)) (ss_size ex_view_a)) (ss_bytes ex_state ex_view_a)
   \<and> psg_lstr_cmp_n ex_state 20 ex_view_a 5 = Some (Inr False)"
  by code_simp

section \<open>Comparison of two LStrings\<close>

lemma advance_ok:
  assumes w: "window_ok s part p rest start r" and c: "c \<le> r"
    and nt: "\<not> (c = r \<and> part_next p = None)"
  shows "\<exists>part' p' rest' start' len.
           advance s part p (start + c) = Inr (part', len, start')
           \<and> window_ok s part' p' rest' start' (unat len)
           \<and> remaining s start r rest = bytes (mem s) start c @ remaining s start' (unat len) rest'
           \<and> unat len + total_size rest' + c = r + total_size rest
           \<and> (if c = r then length rest' < length rest else rest' = rest)"
proof (cases "c = r")
  case True
  with nt obtain a' where nx: "part_next p = Some a'" by auto
  from w have ch: "chain (parts s) (part_next p) rest" and ne: "nonempty_parts rest"
    and e: "start + r = part_data p + unat (part_size p)"
    by (simp_all add: window_ok_def)
  from ch nx obtain p' rest' where rest: "rest = (a', p') # rest'"
    by (cases rest) auto
  from ch nx rest have h': "parts s a' = Some p'"
    and ch': "chain (parts s) (part_next p') rest'" by simp_all
  from ne rest have nz: "part_size p' \<noteq> 0" and ne': "nonempty_parts rest'"
    by (simp_all add: nonempty_parts_def)
  have adv: "advance s part p (start + c) = Inr (a', part_size p', part_data p')"
    using True e by (simp add: advance_def nx h')
  have w': "window_ok s a' p' rest' (part_data p') (unat (part_size p'))"
    using h' ch' ne' nz by (simp add: window_ok_def unat_gt_0)
  have rem: "remaining s start r rest
      = bytes (mem s) start c @ remaining s (part_data p') (unat (part_size p')) rest'"
    by (simp add: remaining_def True rest content_Cons data_of_def)
  show ?thesis
    using adv w' rem True by (auto simp: rest total_size_Cons)
next
  case False
  with c have lt: "c < r" by simp
  from w have h: "parts s part = Some p" and ch: "chain (parts s) (part_next p) rest"
    and ne: "nonempty_parts rest" and d: "part_data p \<le> start"
    and e: "start + r = part_data p + unat (part_size p)"
    by (simp_all add: window_ok_def)
  define k where "k = start + c - part_data p"
  have k: "k + (r - c) = unat (part_size p)" using e d lt by (simp add: k_def)
  then have kle: "k \<le> unat (part_size p)" by simp
  have woi: "(word_of_int (int (start + c) - int (part_data p)) :: uint) = of_nat k"
    using d by (simp add: k_def of_nat_diff)
  have "k < 2 ^ LENGTH(32)"
    using kle unat_uint_less [of "part_size p"] by simp
  then have uk: "unat (of_nat k :: uint) = k" by (simp add: unat_of_nat)
  then have "(of_nat k :: uint) \<le> part_size p" using kle by (simp add: word_le_nat_alt)
  then have ulen: "unat (part_size p - of_nat k) = r - c"
    using k uk by (simp add: unat_sub)
  have "start + c \<noteq> part_data p + unat (part_size p)" using lt e by simp
  then have adv: "advance s part p (start + c) = Inr (part, part_size p - of_nat k, start + c)"
    by (simp only: advance_def woi if_False)
  have w': "window_ok s part p rest (start + c) (r - c)"
    using h ch ne d e lt by (simp add: window_ok_def)
  have "bytes (mem s) start r = bytes (mem s) start c @ bytes (mem s) (start + c) (r - c)"
    using bytes_add [of "mem s" start c "r - c"] lt by simp
  then have rem: "remaining s start r rest
      = bytes (mem s) start c @ remaining s (start + c) (r - c) rest"
    by (simp add: remaining_def)
  show ?thesis
    using adv w' rem False lt by (auto simp: ulen)
qed


lemma remaining_prefix:
  "c \<le> r \<Longrightarrow> take c (remaining s start r rest) = bytes (mem s) start c"
  by (simp add: remaining_def take_bytes min_def)

lemma window_terminal:
  assumes wa: "window_ok s a_part ap as a_start ra"
    and wb: "window_ok s b_part bp bs b_start rb"
    and tot: "ra + total_size as = rb + total_size bs"
    and a: "min ra rb = ra" "part_next ap = None"
  shows "ra = rb \<and> part_next bp = None \<and> as = [] \<and> bs = []"
proof -
  from wa a have as: "as = []" by (simp add: window_ok_def)
  with tot a have "rb = ra" "total_size bs = 0" by (simp_all add: min_def split: if_splits)
  moreover from wb have ne: "nonempty_parts bs" and ch: "chain (parts s) (part_next bp) bs"
    by (simp_all add: window_ok_def)
  have "bs = []"
  proof (cases bs)
    case (Cons bx bs')
    with ne \<open>total_size bs = 0\<close> show ?thesis
      by (cases bx) (simp add: nonempty_parts_def total_size_Cons unat_eq_0)
  qed simp
  moreover from this ch have "part_next bp = None" by simp
  ultimately show ?thesis using as by simp
qed

lemma cmp_loop_correct:
  assumes "window_ok s a_part ap as a_start ra"
    and "window_ok s b_part bp bs b_start rb"
    and "ra + total_size as = rb + total_size bs"
    and "unat chunklen = min ra rb"
  shows "cmp_loop s a_part b_part a_start (a_start + unat chunklen)
           b_start (b_start + unat chunklen) chunklen
         = Some (Inr (remaining s a_start ra as = remaining s b_start rb bs))"
  using assms
proof (induction "length as + length bs"
    arbitrary: a_part ap as a_start ra b_part bp bs b_start rb chunklen rule: less_induct)
  case less
  note wa = less.prems(1) and wb = less.prems(2) and tot = less.prems(3)
    and cl = less.prems(4)
  let ?c = "unat chunklen"
  let ?RA = "remaining s a_start ra as" and ?RB = "remaining s b_start rb bs"
  from wa have ha: "parts s a_part = Some ap"
    and ea: "a_start + ra = part_data ap + unat (part_size ap)" and ra: "0 < ra"
    by (simp_all add: window_ok_def)
  from wb have hb: "parts s b_part = Some bp"
    and eb: "b_start + rb = part_data bp + unat (part_size bp)" and rb: "0 < rb"
    by (simp_all add: window_ok_def)
  have ca: "?c \<le> ra" and cb: "?c \<le> rb" using cl by simp_all
  have a_end: "a_start + ?c = part_data ap + unat (part_size ap) \<longleftrightarrow> ?c = ra"
    using ea by auto
  have b_end: "b_start + ?c = part_data bp + unat (part_size bp) \<longleftrightarrow> ?c = rb"
    using eb by auto
  have one: "?c = ra \<or> ?c = rb" using cl by (auto simp: min_def)
  show ?case
  proof (cases "bytes (mem s) a_start ?c = bytes (mem s) b_start ?c")
    case False
    then have "take ?c ?RA \<noteq> take ?c ?RB"
      by (simp add: remaining_prefix ca cb)
    then have "?RA \<noteq> ?RB" by auto
    with False show ?thesis
      by (subst cmp_loop.simps) (simp add: memcmp_eq)
  next
    case same: True
    show ?thesis
    proof (cases "(?c = ra \<and> part_next ap = None) \<or> (?c = rb \<and> part_next bp = None)")
      case True
      have t: "ra = rb \<and> part_next ap = None \<and> part_next bp = None \<and> as = [] \<and> bs = []"
      proof (cases "?c = ra \<and> part_next ap = None")
        case True
        with window_terminal [OF wa wb tot] cl show ?thesis by simp
      next
        case False
        with True have "?c = rb \<and> part_next bp = None" by blast
        then have b: "min rb ra = rb" "part_next bp = None"
          using cl by (simp_all add: min.commute)
        from window_terminal [OF wb wa tot [symmetric] b] b show ?thesis by simp
      qed
      then have c: "?c = ra" "?c = rb" using cl by simp_all
      have req: "?RA = ?RB" using same t c by (simp add: remaining_def)
      have ae: "a_start + ?c = part_data ap + unat (part_size ap)"
        and be: "b_start + ?c = part_data bp + unat (part_size bp)"
        using a_end b_end c by simp_all
      have nx: "part_next ap = None" "part_next bp = None" using t by simp_all
      show ?thesis
        by (subst cmp_loop.simps) (simp add: memcmp_eq same ha hb ae be nx req Let_def)
    next
      case False
      then have nta: "\<not> (?c = ra \<and> part_next ap = None)"
        and ntb: "\<not> (?c = rb \<and> part_next bp = None)" by simp_all
      from advance_ok [OF wa ca nta] obtain a_part' ap' as' a_start' a_len where
        adva: "advance s a_part ap (a_start + ?c) = Inr (a_part', a_len, a_start')"
        and wa': "window_ok s a_part' ap' as' a_start' (unat a_len)"
        and rema: "?RA = bytes (mem s) a_start ?c @ remaining s a_start' (unat a_len) as'"
        and tota: "unat a_len + total_size as' + ?c = ra + total_size as"
        and lena: "if ?c = ra then length as' < length as else as' = as"
        by blast
      from advance_ok [OF wb cb ntb] obtain b_part' bp' bs' b_start' b_len where
        advb: "advance s b_part bp (b_start + ?c) = Inr (b_part', b_len, b_start')"
        and wb': "window_ok s b_part' bp' bs' b_start' (unat b_len)"
        and remb: "?RB = bytes (mem s) b_start ?c @ remaining s b_start' (unat b_len) bs'"
        and totb: "unat b_len + total_size bs' + ?c = rb + total_size bs"
        and lenb: "if ?c = rb then length bs' < length bs else bs' = bs"
        by blast
      have dec: "length as' + length bs' < length as + length bs"
        using one lena lenb by (auto split: if_splits)
      have tot': "unat a_len + total_size as' = unat b_len + total_size bs'"
        using tota totb tot by simp
      have cl': "unat (min a_len b_len) = min (unat a_len) (unat b_len)"
        by (simp add: min_def word_le_nat_alt)
      note IH = less.hyps [OF dec wa' wb' tot' cl']
      have eq: "(?RA = ?RB) \<longleftrightarrow> (remaining s a_start' (unat a_len) as'
          = remaining s b_start' (unat b_len) bs')"
        using same by (simp add: rema remb)
      have cond: "a_start + ?c = part_data ap + unat (part_size ap)
          \<or> b_start + ?c = part_data bp + unat (part_size bp)"
        using one a_end b_end by auto
      have ncond: "\<not> ((a_start + ?c = part_data ap + unat (part_size ap) \<and> part_next ap = None)
          \<or> (b_start + ?c = part_data bp + unat (part_size bp) \<and> part_next bp = None))"
        using nta ntb a_end b_end by auto
      show ?thesis
        by (subst cmp_loop.simps)
           (simp add: memcmp_eq same ha hb cond ncond adva advb IH eq Let_def)
    qed
  qed
qed


lemma wf_window:
  assumes wf: "wf_lstr s l xs" and nz: "lstr_size l \<noteq> 0"
  shows "\<exists>a x xs'. xs = (a, x) # xs' \<and> lstr_start l = Some a \<and> parts s a = Some x
           \<and> window_ok s a x xs' (part_data x) (unat (part_size x))
           \<and> remaining s (part_data x) (unat (part_size x)) xs' = content s xs
           \<and> unat (part_size x) + total_size xs' = unat (lstr_size l)"
proof -
  from wf_nonempty [OF wf nz] obtain a x xs' where xs: "xs = (a, x) # xs'"
    by (cases xs) auto
  with wf show ?thesis
    by (simp add: wf_lstr_def window_ok_def nonempty_parts_def remaining_def content_Cons
          data_of_def total_size_Cons unat_gt_0)
qed

lemma wf_content_length: "wf_lstr s l xs \<Longrightarrow> length (content s xs) = unat (lstr_size l)"
  by (simp add: wf_lstr_def length_content)

lemma first_or_last_differ_wf:
  assumes "wf_lstr s l xs" "wf_lstr s l' ys" "lstr_size l \<noteq> 0" "lstr_size l' \<noteq> 0"
  shows "first_or_last_differ s l l'
           = Inr (hd (content s xs) \<noteq> hd (content s ys)
                  \<or> last (content s xs) \<noteq> last (content s ys))"
  using assms by (simp add: first_or_last_differ_def first_byte_wf last_byte_wf)

lemma cmp_windows_correct:
  assumes wa: "wf_lstr s l xs" and wb: "wf_lstr s l' ys"
    and eq: "lstr_size l = lstr_size l'" and nz: "lstr_size l \<noteq> 0"
  shows "cmp_windows s l l' = Some (Inr (content s xs = content s ys))"
proof -
  from wf_window [OF wa nz] obtain a x xs' where
    sa: "lstr_start l = Some a" and ha: "parts s a = Some x"
    and wina: "window_ok s a x xs' (part_data x) (unat (part_size x))"
    and rema: "remaining s (part_data x) (unat (part_size x)) xs' = content s xs"
    and tota: "unat (part_size x) + total_size xs' = unat (lstr_size l)"
    by blast
  from nz eq have nz': "lstr_size l' \<noteq> 0" by simp
  from wf_window [OF wb nz'] obtain b y ys' where
    sb: "lstr_start l' = Some b" and hb: "parts s b = Some y"
    and winb: "window_ok s b y ys' (part_data y) (unat (part_size y))"
    and remb: "remaining s (part_data y) (unat (part_size y)) ys' = content s ys"
    and totb: "unat (part_size y) + total_size ys' = unat (lstr_size l')"
    by blast
  have tot: "unat (part_size x) + total_size xs' = unat (part_size y) + total_size ys'"
    using tota totb eq by simp
  have cl: "unat (min (part_size x) (part_size y))
      = min (unat (part_size x)) (unat (part_size y))"
    by (simp add: min_def word_le_nat_alt)
  from cmp_loop_correct [OF wina winb tot cl] show ?thesis
    by (simp add: cmp_windows_def sa sb ha hb Let_def rema remb)
qed

lemma psg_lstr_cmp_content:
  assumes la: "lstrs s a = Some l" and lb: "lstrs s b = Some l'"
    and wa: "wf_lstr s l xs" and wb: "wf_lstr s l' ys"
  shows "psg_lstr_cmp s a b = Some (Inr (content s xs = content s ys))"
proof (cases "lstr_size l = lstr_size l'")
  case False
  then have "unat (lstr_size l) \<noteq> unat (lstr_size l')" by (simp add: word_unat_eq_iff)
  then have "content s xs \<noteq> content s ys"
    using wf_content_length [OF wa] wf_content_length [OF wb] by metis
  with False show ?thesis by (simp add: psg_lstr_cmp_def la lb)
next
  case eq: True
  show ?thesis
  proof (cases "lstr_size l = 0")
    case True
    with eq wf_content_length [OF wa] wf_content_length [OF wb]
    have "content s xs = []" "content s ys = []" by simp_all
    with eq True show ?thesis by (simp add: psg_lstr_cmp_def la lb)
  next
    case nz: False
    with eq have nz': "lstr_size l' \<noteq> 0" by simp
    have pos: "0 < lstr_size l" "0 < lstr_size l'"
      using nz nz' by (simp_all add: word_greater_zero_iff)
    note fl = first_or_last_differ_wf [OF wa wb nz nz']
    note win = cmp_windows_correct [OF wa wb eq nz]
    show ?thesis
    proof (cases "hd (content s xs) \<noteq> hd (content s ys)
        \<or> last (content s xs) \<noteq> last (content s ys)")
      case True
      then have "content s xs \<noteq> content s ys" by auto
      with True eq nz show ?thesis
        by (simp add: psg_lstr_cmp_def la lb pos fl)
    next
      case False
      with eq nz show ?thesis
        by (simp add: psg_lstr_cmp_def la lb pos fl win)
    qed
  qed
qed


text \<open>
  Claim C1. For well-formed LStrings \<open>A\<close> and \<open>B\<close>, \<open>psg_lstr_cmp(A, B)\<close> returns true if
  and only if the concatenation of the bytes of the parts of \<open>A\<close> equals that of \<open>B\<close>,
  however the two byte strings are cut into parts.
\<close>

theorem psg_lstr_cmp_correct:
  assumes "lstrs s a = Some l" and "lstrs s b = Some l'"
    and "wf_lstr s l xs" and "wf_lstr s l' ys"
  shows "psg_lstr_cmp s a b = Some (Inr (content s xs = content s ys))"
  using assms by (rule psg_lstr_cmp_content)

theorem psg_lstr_cmp_correct_witness:
  "lstrs ex_state 20 = Some ex_A \<and> lstrs ex_state 21 = Some ex_B
   \<and> wf_lstr ex_state ex_A [(11, ex_a1), (12, ex_a2)]
   \<and> wf_lstr ex_state ex_B [(13, ex_b1), (14, ex_b2)]
   \<and> psg_lstr_cmp ex_state 20 21 = Some (Inr True)"
proof -
  have la: "lstrs ex_state 20 = Some ex_A" and lb: "lstrs ex_state 21 = Some ex_B"
    by (simp_all add: ex_state_def)
  show ?thesis
    using psg_lstr_cmp_correct [OF la lb ex_wf_A ex_wf_B] la lb ex_wf_A ex_wf_B
    by (simp add: ex_content_A ex_content_B)
qed

text \<open>
  Claim C9. When both operands are well-formed and their sizes are equal, the comparison
  returns a boolean: it never dereferences a \<^verbatim>\<open>NULL\<close> \<^verbatim>\<open>next\<close> pointer (fault
  \<open>NullDeref\<close>), never fails one of the assertions at the success exit (fault
  \<open>AssertFail\<close>) and never loops for ever (\<open>None\<close>). For non-empty operands this holds of
  the window loop itself.
\<close>

theorem psg_lstr_cmp_safe:
  assumes la: "lstrs s a = Some l" and lb: "lstrs s b = Some l'"
    and wa: "wf_lstr s l xs" and wb: "wf_lstr s l' ys"
    and eq: "lstr_size l = lstr_size l'"
  shows "(\<exists>r. psg_lstr_cmp s a b = Some (Inr r))
         \<and> (lstr_size l \<noteq> 0 \<longrightarrow> (\<exists>r. cmp_windows s l l' = Some (Inr r)))"
  using psg_lstr_cmp_content [OF la lb wa wb] cmp_windows_correct [OF wa wb eq]
  by simp

theorem psg_lstr_cmp_safe_witness:
  "lstrs ex_state 20 = Some ex_A \<and> lstrs ex_state 21 = Some ex_B
   \<and> wf_lstr ex_state ex_A [(11, ex_a1), (12, ex_a2)]
   \<and> wf_lstr ex_state ex_B [(13, ex_b1), (14, ex_b2)]
   \<and> lstr_size ex_A = lstr_size ex_B \<and> lstr_size ex_A \<noteq> 0
   \<and> (\<exists>r. psg_lstr_cmp ex_state 20 21 = Some (Inr r))
   \<and> (\<exists>r. cmp_windows ex_state ex_A ex_B = Some (Inr r))"
proof -
  have la: "lstrs ex_state 20 = Some ex_A" and lb: "lstrs ex_state 21 = Some ex_B"
    by (simp_all add: ex_state_def)
  have eq: "lstr_size ex_A = lstr_size ex_B" and nz: "lstr_size ex_A \<noteq> 0"
    by (simp_all add: ex_A_def ex_B_def)
  show ?thesis
    using psg_lstr_cmp_safe [OF la lb ex_wf_A ex_wf_B eq] la lb ex_wf_A ex_wf_B eq nz
    by simp
qed

section \<open>Hashing\<close>

lemma hash_loop_fold:
  "chain (parts s) p xs \<Longrightarrow>
   hash_loop upd s p h = Some (Inr (foldl upd h (map (\<lambda>(a, x). data_of (mem s) x) xs)))"
proof (induction xs arbitrary: p h)
  case Nil
  then show ?case by (subst hash_loop.simps) simp
next
  case (Cons ax xs)
  obtain a x where ax: "ax = (a, x)" by (cases ax)
  from Cons.prems ax have p: "p = Some a" and hp: "parts s a = Some x"
    and ch: "chain (parts s) (part_next x) xs" by simp_all
  show ?case
    by (subst hash_loop.simps) (simp add: p hp ax Cons.IH [OF ch] data_of_def [symmetric])
qed

lemma foldl_streaming:
  assumes st: "\<And>h xs ys. upd (upd h xs) ys = upd h (xs @ ys)"
  shows "bss \<noteq> [] \<Longrightarrow> foldl upd h bss = upd h (concat bss)"
proof (induction bss arbitrary: h)
  case Nil
  then show ?case by simp
next
  case (Cons bs bss)
  show ?case
  proof (cases "bss = []")
    case True
    then show ?thesis by simp
  next
    case False
    with Cons.IH show ?thesis by (simp add: st)
  qed
qed

lemma content_empty_iff:
  "nonempty_parts xs \<Longrightarrow> content s xs = [] \<longleftrightarrow> xs = []"
proof (cases xs)
  case (Cons ax xs')
  assume "nonempty_parts xs"
  with Cons have "0 < length (content s xs)"
    by (cases ax) (simp add: nonempty_parts_def content_Cons unat_gt_0)
  with Cons show ?thesis by auto
qed simp

lemma psg_lstr_hash_content:
  assumes st: "streaming H" and l: "lstrs s a = Some l" and wf: "wf_lstr s l xs"
  shows "psg_lstr_hash H s a = Some (Inr (hash_content H (content s xs)))"
proof -
  from wf have ch: "chain (parts s) (lstr_start l) xs" and ne: "nonempty_parts xs"
    by (simp_all add: wf_lstr_def nonempty_parts_def)
  let ?bss = "map (\<lambda>(a, x). data_of (mem s) x) xs"
  have loop: "hash_loop (h_update H) s (lstr_start l) (h_init H)
      = Some (Inr (foldl (h_update H) (h_init H) ?bss))"
    by (rule hash_loop_fold [OF ch])
  have "foldl (h_update H) (h_init H) ?bss
      = (if content s xs = [] then h_init H else h_update H (h_init H) (content s xs))"
  proof (cases "xs = []")
    case True
    then show ?thesis by simp
  next
    case False
    then have "?bss \<noteq> []" by simp
    then have "foldl (h_update H) (h_init H) ?bss = h_update H (h_init H) (concat ?bss)"
      using st by (intro foldl_streaming) (simp add: streaming_def)
    with False ne show ?thesis
      by (simp add: content_empty_iff) (simp add: content_def)
  qed
  with loop show ?thesis
    by (simp add: psg_lstr_hash_def l hash_content_def)
qed

text \<open>
  Claim C5. For a streaming hasher, \<open>psg_lstr_hash(str)\<close> depends only on the concatenated
  byte content of \<open>str\<close>, not on its cut into parts: it is the digest of the content. So two
  well-formed LStrings with equal content, or for which \<open>psg_lstr_cmp\<close> returns true, have
  equal hashes.
\<close>

theorem psg_lstr_hash_segmentation:
  assumes "streaming H"
    and "lstrs s a = Some l" and "lstrs s b = Some l'"
    and "wf_lstr s l xs" and "wf_lstr s l' ys"
  shows "psg_lstr_hash H s a = Some (Inr (hash_content H (content s xs)))
         \<and> psg_lstr_hash H s b = Some (Inr (hash_content H (content s ys)))
         \<and> (content s xs = content s ys \<longrightarrow> psg_lstr_hash H s a = psg_lstr_hash H s b)
         \<and> (psg_lstr_cmp s a b = Some (Inr True) \<longrightarrow>
              psg_lstr_hash H s a = psg_lstr_hash H s b)"
  using assms psg_lstr_cmp_content [of s a l b l' xs ys]
  by (simp add: psg_lstr_hash_content)

lemma ex_hasher_streaming: "streaming ex_hasher"
  by (simp add: streaming_def ex_hasher_def)

theorem psg_lstr_hash_segmentation_witness:
  "streaming ex_hasher
   \<and> lstrs ex_state 20 = Some ex_A \<and> lstrs ex_state 21 = Some ex_B
   \<and> wf_lstr ex_state ex_A [(11, ex_a1), (12, ex_a2)]
   \<and> wf_lstr ex_state ex_B [(13, ex_b1), (14, ex_b2)]
   \<and> psg_lstr_cmp ex_state 20 21 = Some (Inr True)
   \<and> psg_lstr_hash ex_hasher ex_state 20 = Some (Inr (hash_content ex_hasher [97, 98, 99]))
   \<and> psg_lstr_hash ex_hasher ex_state 20 = psg_lstr_hash ex_hasher ex_state 21"
proof -
  have la: "lstrs ex_state 20 = Some ex_A" and lb: "lstrs ex_state 21 = Some ex_B"
    by (simp_all add: ex_state_def)
  have c: "psg_lstr_cmp ex_state 20 21 = Some (Inr True)" by code_simp
  show ?thesis
    using psg_lstr_hash_segmentation [OF ex_hasher_streaming la lb ex_wf_A ex_wf_B]
      ex_hasher_streaming la lb ex_wf_A ex_wf_B c
    by (simp add: ex_content_A ex_content_B)
qed

section \<open>Teardown\<close>

lemma block_refs_Nil [simp]: "block_refs [] b = 0"
  by (simp add: block_refs_def)

lemma block_refs_Cons:
  "block_refs ((a, x) # xs) b
     = (if part_mbuf_block x = Some b then Suc (block_refs xs b) else block_refs xs b)"
  by (simp add: block_refs_def)

lemma block_refs_0: "\<forall>(a, x) \<in> set xs. part_mbuf_block x \<noteq> Some b \<Longrightarrow> block_refs xs b = 0"
  by (induction xs) (auto simp: block_refs_Cons)

lemma refs_held_all: "refs_held s xs \<Longrightarrow> block_refs xs b \<le> refcount s b"
proof (cases "\<forall>(a, x) \<in> set xs. part_mbuf_block x \<noteq> Some b")
  case True
  then show ?thesis by (simp add: block_refs_0)
next
  case False
  assume "refs_held s xs"
  with False show ?thesis
    by (auto simp: refs_held_def list_all_iff)
qed

lemma deinit_loop_correct:
  "chain (parts s) p xs \<Longrightarrow> (\<And>b. block_refs xs b \<le> refcount s b) \<Longrightarrow>
   deinit_loop s p = Some (Inr (s\<lparr>refcount := \<lambda>b. refcount s b - block_refs xs b\<rparr>))"
proof (induction xs arbitrary: s p)
  case Nil
  then show ?case by (subst deinit_loop.simps) simp
next
  case (Cons ax xs)
  obtain a x where ax: "ax = (a, x)" by (cases ax)
  from Cons.prems(1) ax have p: "p = Some a" and hp: "parts s a = Some x"
    and ch: "chain (parts s) (part_next x) xs" by simp_all
  show ?case
  proof (cases "part_mbuf_block x")
    case None
    have held: "block_refs xs b \<le> refcount s b" for b
      using Cons.prems(2) [of b] None by (simp add: ax block_refs_Cons)
    have "block_refs (ax # xs) = block_refs xs"
      using None by (auto simp: ax block_refs_Cons)
    with Cons.IH [OF ch held] show ?thesis
      by (subst deinit_loop.simps) (simp add: p hp None)
  next
    case (Some b)
    let ?s' = "s\<lparr>refcount := (refcount s)(b := refcount s b - 1)\<rparr>"
    from Cons.prems(2) [of b] Some have pos: "refcount s b \<noteq> 0"
      by (simp add: ax block_refs_Cons)
    have unref: "mbuf_block_unref s b = Inr ?s'"
      using pos by (simp add: mbuf_block_unref_def)
    have ch': "chain (parts ?s') (part_next x) xs" using ch by simp
    have held: "block_refs xs b' \<le> refcount ?s' b'" for b'
      using Cons.prems(2) [of b'] Some by (auto simp: ax block_refs_Cons)
    have "?s'\<lparr>refcount := \<lambda>b'. refcount ?s' b' - block_refs xs b'\<rparr>
        = s\<lparr>refcount := \<lambda>b'. refcount s b' - block_refs (ax # xs) b'\<rparr>"
      using Some by (auto simp: ax block_refs_Cons fun_eq_iff)
    with Cons.IH [OF ch' held] show ?thesis
      by (subst deinit_loop.simps) (simp add: p hp Some unref)
  qed
qed

lemma psg_lstr_deinit_result:
  assumes l: "lstrs s str = Some l" and wf: "wf_lstr s l xs" and held: "refs_held s xs"
  shows "psg_lstr_deinit s str
           = Some (Inr (s\<lparr>refcount := \<lambda>b. refcount s b - block_refs xs b,
                          lstrs := (lstrs s)(str \<mapsto> empty_lstr)\<rparr>))"
proof -
  from wf have ch: "chain (parts s) (lstr_start l) xs" by (simp add: wf_lstr_def)
  from deinit_loop_correct [OF ch refs_held_all [OF held]] show ?thesis
    by (simp add: psg_lstr_deinit_def l psg_lstr_init_def empty_lstr_def)
qed

lemma psg_lstr_deinit_empty:
  assumes "lstrs s str = Some empty_lstr"
  shows "psg_lstr_deinit s str = Some (Inr s)"
proof -
  have "(lstrs s)(str \<mapsto> empty_lstr) = lstrs s"
    using assms by (simp add: fun_upd_idem)
  then have "psg_lstr_init s str = s"
    by (simp add: psg_lstr_init_def empty_lstr_def)
  moreover have "deinit_loop s None = Some (Inr s)"
    by (subst deinit_loop.simps) simp
  ultimately show ?thesis
    using assms by (simp add: psg_lstr_deinit_def empty_lstr_def)
qed

text \<open>
  Claim C8. For a well-formed LString whose parts' references are counted in their blocks,
  \<open>psg_lstr_deinit\<close> returns; every block's reference count has gone down by the number of
  parts that hold the block (one release per part with a non-null \<^verbatim>\<open>mbuf_block\<close>, none for
  the other parts), the value is the empty string (\<^verbatim>\<open>start == NULL\<close>, \<^verbatim>\<open>end == NULL\<close>,
  \<^verbatim>\<open>size == 0\<close>) and nothing else has changed. For the value with one part backed by a block
  of reference count 2 and one unbacked part, the count is 1 afterwards.
\<close>

theorem psg_lstr_deinit_releases:
  assumes "lstrs s str = Some l" and "wf_lstr s l xs" and "refs_held s xs"
  shows "psg_lstr_deinit s str
           = Some (Inr (s\<lparr>refcount := \<lambda>b. refcount s b - block_refs xs b,
                          lstrs := (lstrs s)(str \<mapsto>
                            \<lparr>lstr_start = None, lstr_end = None, lstr_size = 0\<rparr>)\<rparr>))"
  using psg_lstr_deinit_result [OF assms] by (simp add: empty_lstr_def)

theorem psg_lstr_deinit_releases_witness:
  "lstrs ex_state 20 = Some ex_A \<and> wf_lstr ex_state ex_A [(11, ex_a1), (12, ex_a2)]
   \<and> refs_held ex_state [(11, ex_a1), (12, ex_a2)]
   \<and> part_mbuf_block ex_a1 = Some 7 \<and> part_mbuf_block ex_a2 = None
   \<and> refcount ex_state 7 = 2
   \<and> (\<exists>s'. psg_lstr_deinit ex_state 20 = Some (Inr s') \<and> refcount s' 7 = 1
          \<and> lstrs s' 20 = Some \<lparr>lstr_start = None, lstr_end = None, lstr_size = 0\<rparr>)"
proof -
  have l: "lstrs ex_state 20 = Some ex_A" by (simp add: ex_state_def)
  have held: "refs_held ex_state [(11, ex_a1), (12, ex_a2)]" by code_simp
  have b: "part_mbuf_block ex_a1 = Some 7" "part_mbuf_block ex_a2 = None"
    "refcount ex_state 7 = 2"
    by (simp_all add: ex_a1_def ex_a2_def ex_state_def)
  have n: "block_refs [(11, ex_a1), (12, ex_a2)] 7 = 1"
    by (simp add: block_refs_def b)
  show ?thesis
    using psg_lstr_deinit_releases [OF l ex_wf_A held] l ex_wf_A held b
    by (simp add: n)
qed

text \<open>
  Claim C10. \<open>psg_lstr_deinit\<close> is idempotent on one LString value: the first call leaves
  the value as \<open>psg_lstr_init\<close> does, and a second call on the same value walks over no part
  and returns the state unchanged, so no reference count moves.
\<close>

theorem psg_lstr_deinit_idempotent:
  assumes "lstrs s str = Some l" and "wf_lstr s l xs" and "refs_held s xs"
  shows "\<exists>s1. psg_lstr_deinit s str = Some (Inr s1)
           \<and> lstrs s1 str = lstrs (psg_lstr_init s str) str
           \<and> psg_lstr_deinit s1 str = Some (Inr s1)"
proof -
  let ?s1 = "s\<lparr>refcount := \<lambda>b. refcount s b - block_refs xs b,
               lstrs := (lstrs s)(str \<mapsto> empty_lstr)\<rparr>"
  have "psg_lstr_deinit s str = Some (Inr ?s1)"
    by (rule psg_lstr_deinit_result [OF assms])
  moreover have e: "lstrs ?s1 str = Some empty_lstr" by simp
  moreover have "lstrs ?s1 str = lstrs (psg_lstr_init s str) str"
    by (simp add: psg_lstr_init_def empty_lstr_def)
  moreover have "psg_lstr_deinit ?s1 str = Some (Inr ?s1)"
    by (rule psg_lstr_deinit_empty [OF e])
  ultimately show ?thesis by blast
qed

theorem psg_lstr_deinit_idempotent_witness:
  "lstrs ex_state 20 = Some ex_A \<and> wf_lstr ex_state ex_A [(11, ex_a1), (12, ex_a2)]
   \<and> refs_held ex_state [(11, ex_a1), (12, ex_a2)]
   \<and> (\<exists>s1. psg_lstr_deinit ex_state 20 = Some (Inr s1)
          \<and> lstrs s1 20 = lstrs (psg_lstr_init ex_state 20) 20
          \<and> psg_lstr_deinit s1 20 = Some (Inr s1))"
proof -
  have l: "lstrs ex_state 20 = Some ex_A" by (simp add: ex_state_def)
  have held: "refs_held ex_state [(11, ex_a1), (12, ex_a2)]" by code_simp
  show ?thesis
    using psg_lstr_deinit_idempotent [OF l ex_wf_A held] l ex_wf_A held
    by simp
qed

section \<open>Appending\<close>

lemma chain_unique: "chain h p xs \<Longrightarrow> chain h p ys \<Longrightarrow> xs = ys"
proof (induction xs arbitrary: p ys)
  case Nil
  then show ?case by simp
next
  case (Cons ax xs)
  obtain a x where ax: "ax = (a, x)" by (cases ax)
  from Cons.prems(1) ax have p: "p = Some a" and h: "h a = Some x"
    and ch: "chain h (part_next x) xs" by simp_all
  from Cons.prems(2) p obtain ys' where ys: "ys = (a, x) # ys'"
    and ch': "chain h (part_next x) ys'"
    using h by (cases ys) auto
  from Cons.IH [OF ch ch'] show ?case by (simp add: ax ys)
qed

lemma chain_suffix:
  "chain h p (ys @ (a, x) # zs) \<Longrightarrow> h a = Some x \<and> chain h (part_next x) zs"
  by (induction ys arbitrary: p) auto

lemma chain_distinct: "chain h p xs \<Longrightarrow> distinct (map fst xs)"
proof (induction xs arbitrary: p)
  case Nil
  then show ?case by simp
next
  case (Cons ax xs)
  obtain a x where ax: "ax = (a, x)" by (cases ax)
  from Cons.prems ax have h: "h a = Some x" and ch: "chain h (part_next x) xs"
    by simp_all
  have "a \<notin> fst ` set xs"
  proof
    assume "a \<in> fst ` set xs"
    then obtain x' where "(a, x') \<in> set xs" by auto
    then obtain ys zs where xs: "xs = ys @ (a, x') # zs"
      by (auto simp: in_set_conv_decomp)
    from chain_suffix [of h "part_next x" ys a x' zs] ch xs h
    have "x' = x" and "chain h (part_next x) zs" by simp_all
    from chain_unique [OF ch this(2)] xs show False by simp
  qed
  with Cons.IH [OF ch] show ?case by (simp add: ax)
qed

lemma chain_upd_fresh:
  "a \<notin> fst ` set xs \<Longrightarrow> chain (h(a \<mapsto> v)) p xs = chain h p xs"
  by (induction xs arbitrary: p) auto

lemma chain_snoc:
  assumes "chain h p xs" and "xs \<noteq> []" and "part \<notin> fst ` set xs"
    and "part_next q = None"
  shows "chain (h(fst (last xs) \<mapsto> (snd (last xs))\<lparr>part_next := Some part\<rparr>, part \<mapsto> q)) p
           (relink xs part @ [(part, q)])"
  using assms(1-3)
proof (induction xs arbitrary: p)
  case Nil
  then show ?case by simp
next
  case (Cons ax xs)
  obtain a x where ax: "ax = (a, x)" by (cases ax)
  from Cons.prems ax have p: "p = Some a" and h: "h a = Some x"
    and ch: "chain h (part_next x) xs" and fr: "part \<noteq> a" "part \<notin> fst ` set xs"
    by auto
  show ?case
  proof (cases "xs = []")
    case True
    with ch have "part_next x = None" by simp
    with True fr assms(4) show ?thesis
      by (simp add: ax p relink_def)
  next
    case False
    from chain_distinct [OF Cons.prems(1)] have "a \<notin> fst ` set xs" by (simp add: ax)
    moreover have "last xs \<in> set xs" using False by simp
    ultimately have ne: "a \<noteq> fst (last xs)" by auto
    from Cons.IH [OF ch False fr(2)] False ne fr h show ?thesis
      by (simp add: ax p relink_def)
  qed
qed

lemma total_size_append: "total_size (xs @ ys) = total_size xs + total_size ys"
  by (simp add: total_size_def)

lemma nonempty_parts_append:
  "nonempty_parts (xs @ ys) \<longleftrightarrow> nonempty_parts xs \<and> nonempty_parts ys"
  by (simp add: nonempty_parts_def)

lemma total_size_relink: "total_size (relink xs part) = total_size xs"
proof (cases "xs = []")
  case False
  then have "xs = butlast xs @ [last xs]" by simp
  then have "total_size xs = total_size (butlast xs) + total_size [last xs]"
    by (metis total_size_append)
  with False show ?thesis
    by (simp add: relink_def total_size_append total_size_def split_beta)
qed (simp add: relink_def)

lemma nonempty_parts_relink: "nonempty_parts (relink xs part) = nonempty_parts xs"
proof (cases "xs = []")
  case False
  then have "xs = butlast xs @ [last xs]" by simp
  then have "nonempty_parts xs
      \<longleftrightarrow> nonempty_parts (butlast xs) \<and> nonempty_parts [last xs]"
    by (metis nonempty_parts_append)
  with False show ?thesis
    by (simp add: relink_def nonempty_parts_append) (simp add: nonempty_parts_def split_beta)
qed (simp add: relink_def)

lemma content_append: "content s (xs @ ys) = content s xs @ content s ys"
  by (simp add: content_def)

lemma length_relink [simp]: "length (relink xs part) = length xs"
  by (cases "xs = []") (simp_all add: relink_def)

lemma fst_set_relink [simp]: "fst ` set (relink xs part) = fst ` set xs"
proof (cases "xs = []")
  case False
  then have "xs = butlast xs @ [last xs]" by simp
  then have "set xs = set (butlast xs) \<union> {last xs}"
    by (metis list.set(1) list.simps(15) set_append)
  with False show ?thesis by (simp add: relink_def image_Un)
qed (simp add: relink_def)


lemma unat_plus_uint:
  "unat (a :: uint) + unat b < 2 ^ 32 \<Longrightarrow> unat (a + b) = unat a + unat b"
  using unat_add_lem [of a b] by simp

lemma append_part_wf:
  assumes l: "lstrs s str = Some l" and wf: "wf_lstr s l xs"
    and hp: "parts s part = Some p" and fr: "part \<notin> fst ` set xs"
    and nz: "part_size p \<noteq> 0"
    and bound: "unat (lstr_size l) + unat (part_size p) < 2 ^ 32"
  shows "\<exists>s' l'. psg_lstr_append_part s str part = Inr s'
           \<and> lstrs s' str = Some l'
           \<and> wf_lstr s' l' (relink xs part @ [(part, p\<lparr>part_next := None\<rparr>)])
           \<and> unat (lstr_size l') = unat (lstr_size l) + unat (part_size p)
           \<and> pool_next s' = pool_next s \<and> mem s' = mem s \<and> refcount s' = refcount s"
proof -
  from wf have ch: "chain (parts s) (lstr_start l) xs"
    and en: "lstr_end l = (if xs = [] then None else Some (fst (last xs)))"
    and ne: "nonempty_parts xs"
    and tot: "unat (lstr_size l) = total_size xs"
    by (simp_all add: wf_lstr_def nonempty_parts_def)
  let ?q = "p\<lparr>part_next := None\<rparr>"
  let ?xs' = "relink xs part @ [(part, ?q)]"
  have sz: "unat (lstr_size l + part_size p) = unat (lstr_size l) + unat (part_size p)"
    by (rule unat_plus_uint [OF bound])
  have tot': "total_size ?xs' = unat (lstr_size l) + unat (part_size p)"
    by (simp add: total_size_append total_size_relink tot) (simp add: total_size_def)
  have ne': "nonempty_parts ?xs'"
    using ne nz by (simp add: nonempty_parts_append nonempty_parts_relink)
      (simp add: nonempty_parts_def)
  show ?thesis
  proof (cases "xs = []")
    case True
    with ch en have st: "lstr_start l = None" and e: "lstr_end l = None" by simp_all
    let ?l' = "l\<lparr>lstr_start := Some part, lstr_end := Some part,
                  lstr_size := lstr_size l + part_size p\<rparr>"
    let ?s' = "s\<lparr>lstrs := (lstrs s)(str \<mapsto> ?l'), parts := (parts s)(part \<mapsto> ?q)\<rparr>"
    have run: "psg_lstr_append_part s str part = Inr ?s'"
      by (simp add: psg_lstr_append_part_def l e hp)
    have "wf_lstr ?s' ?l' ?xs'"
      using ne' tot' sz True
      by (simp add: wf_lstr_def nonempty_parts_def relink_def)
    with run sz show ?thesis by auto
  next
    case False
    let ?e = "fst (last xs)" and ?ep = "snd (last xs)"
    from en False have e: "lstr_end l = Some ?e" by simp
    from chain_last [OF ch False] have he: "parts s ?e = Some ?ep" .
    have "last xs \<in> set xs" using False by simp
    with fr have pe: "part \<noteq> ?e" by auto
    let ?l' = "l\<lparr>lstr_end := Some part, lstr_size := lstr_size l + part_size p\<rparr>"
    let ?h' = "(parts s)(?e \<mapsto> ?ep\<lparr>part_next := Some part\<rparr>, part \<mapsto> ?q)"
    let ?s' = "s\<lparr>parts := ?h', lstrs := (lstrs s)(str \<mapsto> ?l')\<rparr>"
    have run: "psg_lstr_append_part s str part = Inr ?s'"
      using pe by (simp add: psg_lstr_append_part_def l e he hp)
    have ch': "chain ?h' (lstr_start l) ?xs'"
      by (rule chain_snoc [OF ch False fr]) simp
    have "wf_lstr ?s' ?l' ?xs'"
      using ne' tot' sz ch'
      by (simp add: wf_lstr_def nonempty_parts_def)
    with run sz show ?thesis by auto
  qed
qed


lemma pool_fresh_notin: "pool_fresh s xs \<Longrightarrow> pool_next s \<notin> fst ` set xs"
  by (auto simp: pool_fresh_def list_all_iff)

lemma wf_lstr_alloc:
  assumes "wf_lstr s l xs" and "a \<notin> fst ` set xs" and "parts s' = (parts s)(a \<mapsto> v)"
  shows "wf_lstr s' l xs"
  using assms by (simp add: wf_lstr_def chain_upd_fresh)

lemma pool_fresh_snoc:
  assumes "pool_fresh s xs" and "pool_next s' = pool_next s + sizeof_Part"
  shows "pool_fresh s' (relink xs part @ [(pool_next s, q)])"
proof -
  have old: "a < pool_next s'" if "(a, x) \<in> set (relink xs part)" for a x
  proof -
    from that have "a \<in> fst ` set (relink xs part)" by (metis fst_conv image_eqI)
    then have "a \<in> fst ` set xs" by simp
    with assms show ?thesis by (auto simp: pool_fresh_def list_all_iff)
  qed
  have "pool_next s < pool_next s'" using assms(2) by (simp add: sizeof_Part_def)
  with old show ?thesis by (auto simp: pool_fresh_def list_all_iff)
qed

text \<open>What one append of a non-empty range establishes, whatever block the part holds.\<close>

lemma append_new_part:
  assumes l: "lstrs s str = Some l" and wf: "wf_lstr s l xs" and fr: "pool_fresh s xs"
    and nz: "sz \<noteq> 0" and bound: "unat (lstr_size l) + unat sz < 2 ^ 32"
    and s2: "lstrs s2 str = Some l"
      "parts s2 = (parts s)(pool_next s \<mapsto>
         \<lparr>part_next = None, part_mbuf_block = blk, part_data = dat, part_size = sz\<rparr>)"
      "pool_next s2 = pool_next s + sizeof_Part"
  shows "\<exists>s' l' xs'. psg_lstr_append_part s2 str (pool_next s) = Inr s'
           \<and> lstrs s' str = Some l' \<and> wf_lstr s' l' xs' \<and> pool_fresh s' xs'
           \<and> unat (lstr_size l') = unat (lstr_size l) + unat sz
           \<and> length xs' = Suc (length xs)"
proof -
  let ?part = "pool_next s"
  let ?p = "\<lparr>part_next = None, part_mbuf_block = blk, part_data = dat, part_size = sz\<rparr>"
  have nin: "?part \<notin> fst ` set xs" by (rule pool_fresh_notin [OF fr])
  have wf2: "wf_lstr s2 l xs" by (rule wf_lstr_alloc [OF wf nin s2(2)])
  have hp: "parts s2 ?part = Some ?p" by (simp add: s2(2))
  from append_part_wf [OF s2(1) wf2 hp nin] nz bound
  obtain s' l' where run: "psg_lstr_append_part s2 str ?part = Inr s'"
    and l': "lstrs s' str = Some l'"
    and wf': "wf_lstr s' l' (relink xs ?part @ [(?part, ?p\<lparr>part_next := None\<rparr>)])"
    and sz': "unat (lstr_size l') = unat (lstr_size l) + unat sz"
    and pn: "pool_next s' = pool_next s2"
    by auto
  have "pool_fresh s' (relink xs ?part @ [(?part, ?p\<lparr>part_next := None\<rparr>)])"
    by (rule pool_fresh_snoc [OF fr]) (simp add: pn s2(3))
  moreover have "length (relink xs ?part @ [(?part, ?p\<lparr>part_next := None\<rparr>)])
      = Suc (length xs)" by simp
  ultimately show ?thesis using run l' wf' sz' by blast
qed

lemma apply_append_inv:
  assumes l: "lstrs s str = Some l" and wf: "wf_lstr s l xs" and fr: "pool_fresh s xs"
    and v: "valid_op x" and bound: "unat (lstr_size l) + op_len x < 2 ^ 32"
  shows "\<exists>s' l' xs'. apply_append s str x = Inr s'
           \<and> lstrs s' str = Some l' \<and> wf_lstr s' l' xs' \<and> pool_fresh s' xs'
           \<and> unat (lstr_size l') = unat (lstr_size l) + op_len x
           \<and> length xs' = length xs + (if op_len x = 0 then 0 else 1)
           \<and> (op_len x = 0 \<longrightarrow> s' = s)"
proof -
  have zero: ?thesis if "apply_append s str x = Inr s" "op_len x = 0"
    using that l wf fr by (intro exI [of _ s] exI [of _ l] exI [of _ xs]) simp
  have new: ?thesis
    if nz: "sz \<noteq> 0" and len: "op_len x = unat sz"
      and run: "apply_append s str x = psg_lstr_append_part s2 str (pool_next s)"
      and s2: "lstrs s2 str = Some l"
        "parts s2 = (parts s)(pool_next s \<mapsto>
           \<lparr>part_next = None, part_mbuf_block = blk, part_data = dat, part_size = sz\<rparr>)"
        "pool_next s2 = pool_next s + sizeof_Part"
    for sz s2 blk dat
  proof -
    from bound len have b: "unat (lstr_size l) + unat sz < 2 ^ 32" by simp
    from nz have "op_len x \<noteq> 0" by (simp add: len unat_eq_0)
    with append_new_part [OF l wf fr nz b s2] run len show ?thesis by auto
  qed
  show ?thesis
  proof (cases x)
    case (AppendData dat sz)
    show ?thesis
    proof (cases "sz = 0")
      case True
      with AppendData show ?thesis
        by (intro zero) (simp_all add: psg_lstr_append_def)
    next
      case False
      let ?s2 = "s\<lparr>pool_next := pool_next s + sizeof_Part,
                  parts := (parts s)(pool_next s \<mapsto>
                    \<lparr>part_next = None, part_mbuf_block = None,
                     part_data = dat, part_size = sz\<rparr>)\<rparr>"
      have run: "apply_append s str x = psg_lstr_append_part ?s2 str (pool_next s)"
        using False by (simp add: AppendData psg_lstr_append_def psg_palloc_def)
      show ?thesis
        by (rule new [OF False _ run, of None dat]) (simp_all add: AppendData l)
    qed
  next
    case (AppendMbuf buffer dat sz)
    show ?thesis
    proof (cases "sz = 0")
      case True
      with AppendMbuf show ?thesis
        by (intro zero) (simp_all add: psg_lstr_append_mbuf_def)
    next
      case False
      let ?s2 = "mbuf_block_ref
                  (s\<lparr>pool_next := pool_next s + sizeof_Part,
                     parts := (parts s)(pool_next s \<mapsto>
                       \<lparr>part_next = None, part_mbuf_block = Some (mbuf_block buffer),
                        part_data = dat, part_size = sz\<rparr>)\<rparr>)
                  (mbuf_block buffer)"
      have run: "apply_append s str x = psg_lstr_append_part ?s2 str (pool_next s)"
        using False by (simp add: AppendMbuf psg_lstr_append_mbuf_def psg_palloc_def)
      show ?thesis
        by (rule new [OF False _ run, of "Some (mbuf_block buffer)" dat])
           (simp_all add: AppendMbuf mbuf_block_ref_def l)
    qed
  next
    case (AppendMbufAll buffer)
    let ?sz = "word_of_int (int (mbuf_end buffer) - int (mbuf_start buffer)) :: uint"
    from v AppendMbufAll have le: "mbuf_start buffer \<le> mbuf_end buffer" by simp
    then have w: "?sz = of_nat (mbuf_end buffer - mbuf_start buffer)"
      by (simp add: of_nat_diff)
    from bound AppendMbufAll have "mbuf_end buffer - mbuf_start buffer < 2 ^ LENGTH(32)"
      by simp
    then have u: "unat ?sz = mbuf_end buffer - mbuf_start buffer"
      unfolding w by (simp add: unat_of_nat)
    show ?thesis
    proof (cases "?sz = 0")
      case True
      with u have "op_len x = 0" by (simp add: AppendMbufAll)
      with AppendMbufAll True show ?thesis
        by (intro zero) (simp_all add: psg_lstr_append_mbuf_all_def psg_lstr_append_mbuf_def)
    next
      case False
      let ?s2 = "mbuf_block_ref
                  (s\<lparr>pool_next := pool_next s + sizeof_Part,
                     parts := (parts s)(pool_next s \<mapsto>
                       \<lparr>part_next = None, part_mbuf_block = Some (mbuf_block buffer),
                        part_data = mbuf_start buffer, part_size = ?sz\<rparr>)\<rparr>)
                  (mbuf_block buffer)"
      have run: "apply_append s str x = psg_lstr_append_part ?s2 str (pool_next s)"
        using False
        by (simp add: AppendMbufAll psg_lstr_append_mbuf_all_def
              psg_lstr_append_mbuf_def psg_palloc_def)
      have len: "op_len x = unat ?sz" by (simp only: AppendMbufAll op_len.simps u)
      show ?thesis
        by (rule new [OF False len run, of "Some (mbuf_block buffer)" "mbuf_start buffer"])
           (simp_all add: mbuf_block_ref_def l)
    qed
  qed
qed


lemma total_len_Cons: "total_len (x # ops) = op_len x + total_len ops"
  by (simp add: total_len_def)

lemma appends_inv:
  assumes "lstrs s str = Some l" and "wf_lstr s l xs" and "pool_fresh s xs"
    and "list_all valid_op ops" and "unat (lstr_size l) + total_len ops < 2 ^ 32"
  shows "\<exists>s' l' xs'. appends s str ops = Inr s'
           \<and> lstrs s' str = Some l' \<and> wf_lstr s' l' xs' \<and> pool_fresh s' xs'
           \<and> unat (lstr_size l') = unat (lstr_size l) + total_len ops
           \<and> length xs' = length xs + length (filter (\<lambda>x. op_len x \<noteq> 0) ops)"
  using assms
proof (induction ops arbitrary: s l xs)
  case Nil
  then show ?case by (auto simp: total_len_def)
next
  case (Cons x ops)
  from Cons.prems(4) have v: "valid_op x" and vs: "list_all valid_op ops" by simp_all
  from Cons.prems(5) have b: "unat (lstr_size l) + op_len x < 2 ^ 32"
    by (simp add: total_len_Cons)
  from apply_append_inv [OF Cons.prems(1-3) v b]
  obtain s1 l1 xs1 where run: "apply_append s str x = Inr s1"
    and l1: "lstrs s1 str = Some l1" and wf1: "wf_lstr s1 l1 xs1"
    and fr1: "pool_fresh s1 xs1"
    and sz1: "unat (lstr_size l1) = unat (lstr_size l) + op_len x"
    and len1: "length xs1 = length xs + (if op_len x = 0 then 0 else 1)"
    by blast
  from Cons.prems(5) sz1 have b1: "unat (lstr_size l1) + total_len ops < 2 ^ 32"
    by (simp add: total_len_Cons)
  from Cons.IH [OF l1 wf1 fr1 vs b1]
  obtain s' l' xs' where run': "appends s1 str ops = Inr s'"
    and l': "lstrs s' str = Some l'" and wf': "wf_lstr s' l' xs'"
    and fr': "pool_fresh s' xs'"
    and sz': "unat (lstr_size l') = unat (lstr_size l1) + total_len ops"
    and len': "length xs' = length xs1 + length (filter (\<lambda>x. op_len x \<noteq> 0) ops)"
    by blast
  have "appends s str (x # ops) = Inr s'" by (simp add: run run')
  moreover have "unat (lstr_size l') = unat (lstr_size l) + total_len (x # ops)"
    using sz' sz1 by (simp add: total_len_Cons)
  moreover have "length xs' = length xs + length (filter (\<lambda>x. op_len x \<noteq> 0) (x # ops))"
    using len' len1 by simp
  ultimately show ?case using l' wf' fr' by blast
qed

lemma total_size_0:
  "nonempty_parts xs \<Longrightarrow> total_size xs = 0 \<longleftrightarrow> xs = []"
proof (cases xs)
  case (Cons ax xs')
  assume "nonempty_parts xs"
  with Cons show ?thesis
    by (cases ax) (simp add: nonempty_parts_def total_size_Cons unat_eq_0)
qed simp

lemma wf_empty_iff:
  assumes "wf_lstr s l xs"
  shows "lstr_size l = 0 \<longleftrightarrow> lstr_start l = None \<and> lstr_end l = None"
proof -
  from assms have ch: "chain (parts s) (lstr_start l) xs"
    and en: "lstr_end l = (if xs = [] then None else Some (fst (last xs)))"
    and ne: "nonempty_parts xs" and tot: "unat (lstr_size l) = total_size xs"
    by (simp_all add: wf_lstr_def nonempty_parts_def)
  have "lstr_size l = 0 \<longleftrightarrow> xs = []"
    using total_size_0 [OF ne] tot by (simp add: unat_eq_0 [symmetric])
  moreover have "lstr_start l = None \<and> lstr_end l = None \<longleftrightarrow> xs = []"
    using ch en by (cases xs) auto
  ultimately show ?thesis by simp
qed

lemma wf_end_next:
  assumes "wf_lstr s l xs" and "lstr_end l = Some e"
  shows "\<exists>p. parts s e = Some p \<and> part_next p = None"
proof -
  from assms have ch: "chain (parts s) (lstr_start l) xs" and ne: "xs \<noteq> []"
    and e: "e = fst (last xs)"
    by (auto simp: wf_lstr_def split: if_splits)
  from chain_last [OF ch ne] chain_last_next [OF ch ne] e show ?thesis by simp
qed

text \<open>
  Claim C7, as amended. Starting from the empty value, any sequence of appends of byte
  ranges whose total length \<open>L\<close> is below \<open>2^32\<close> returns, and the value is then
  well-formed: the chain from \<^verbatim>\<open>start\<close> ends in \<^verbatim>\<open>NULL\<close> after the part \<^verbatim>\<open>end\<close>, no part
  has size 0, \<^verbatim>\<open>size\<close> is the sum of the parts' sizes and equals \<open>L\<close>, and \<^verbatim>\<open>size == 0\<close> if
  and only if \<^verbatim>\<open>start == NULL && end == NULL\<close>. There is one part for each append of a
  non-empty range: an append of length zero allocates no part and changes nothing.
\<close>

theorem appends_invariant:
  assumes "list_all valid_op ops" and "total_len ops < 2 ^ 32"
  shows "(\<exists>s' l xs. appends (psg_lstr_init s str) str ops = Inr s'
            \<and> lstrs s' str = Some l \<and> wf_lstr s' l xs
            \<and> unat (lstr_size l) = total_len ops
            \<and> (lstr_size l = 0 \<longleftrightarrow> lstr_start l = None \<and> lstr_end l = None)
            \<and> (\<forall>e. lstr_end l = Some e \<longrightarrow> (\<exists>p. parts s' e = Some p \<and> part_next p = None))
            \<and> length xs = length (filter (\<lambda>x. op_len x \<noteq> 0) ops))
         \<and> psg_lstr_append s str dat 0 = Inr s
         \<and> psg_lstr_append_mbuf s str buffer dat 0 = Inr s"
proof -
  let ?s0 = "psg_lstr_init s str"
  have l0: "lstrs ?s0 str = Some empty_lstr"
    by (simp add: psg_lstr_init_def empty_lstr_def)
  have wf0: "wf_lstr ?s0 empty_lstr []"
    by (simp add: wf_lstr_def empty_lstr_def)
  have fr0: "pool_fresh ?s0 []" by (simp add: pool_fresh_def)
  have b0: "unat (lstr_size empty_lstr) + total_len ops < 2 ^ 32"
    using assms(2) by (simp add: empty_lstr_def)
  from appends_inv [OF l0 wf0 fr0 assms(1) b0]
  obtain s' l xs where run: "appends ?s0 str ops = Inr s'"
    and l: "lstrs s' str = Some l" and wf: "wf_lstr s' l xs"
    and sz: "unat (lstr_size l) = total_len ops"
    and len: "length xs = length (filter (\<lambda>x. op_len x \<noteq> 0) ops)"
    by (auto simp: empty_lstr_def)
  note e = wf_empty_iff [OF wf] and n = wf_end_next [OF wf]
  have "\<forall>e. lstr_end l = Some e \<longrightarrow> (\<exists>p. parts s' e = Some p \<and> part_next p = None)"
    using n by blast
  with run l wf sz len e
  have "\<exists>s' l xs. appends ?s0 str ops = Inr s'
            \<and> lstrs s' str = Some l \<and> wf_lstr s' l xs
            \<and> unat (lstr_size l) = total_len ops
            \<and> (lstr_size l = 0 \<longleftrightarrow> lstr_start l = None \<and> lstr_end l = None)
            \<and> (\<forall>e. lstr_end l = Some e \<longrightarrow> (\<exists>p. parts s' e = Some p \<and> part_next p = None))
            \<and> length xs = length (filter (\<lambda>x. op_len x \<noteq> 0) ops)"
    by blast
  then show ?thesis
    by (simp add: psg_lstr_append_def psg_lstr_append_mbuf_def)
qed

theorem appends_invariant_witness:
  "list_all valid_op ex_ops \<and> total_len ex_ops < 2 ^ 32 \<and> total_len ex_ops = 3
   \<and> (\<exists>s' l xs. appends (psg_lstr_init ex_state 30) 30 ex_ops = Inr s'
          \<and> lstrs s' 30 = Some l \<and> wf_lstr s' l xs \<and> unat (lstr_size l) = 3
          \<and> length xs = 2)"
proof -
  have v: "list_all valid_op ex_ops" by (simp add: ex_ops_def)
  have t: "total_len ex_ops = 3" by (simp add: ex_ops_def total_len_def)
  have b: "total_len ex_ops < 2 ^ 32" by (simp add: t)
  have n: "length (filter (\<lambda>x. 0 < op_len x) ex_ops) = 2" by (simp add: ex_ops_def)
  show ?thesis
    using appends_invariant [OF v b, where s = ex_state and str = 30 and dat = 0
        and buffer = "\<lparr>mbuf_block = 7, mbuf_start = 102, mbuf_end = 103\<rparr>"] v b t
    by (auto simp: n)
qed


text \<open>
  Claim C7 as first stated (for every total length) fails for two appends of \<open>2^31\<close> bytes
  each: \<^verbatim>\<open>str->size += part->size\<close> wraps around, so the value has two parts and
  \<^verbatim>\<open>size == 0\<close>, which is neither \<open>L\<close> nor the sum of the parts' sizes.
\<close>

theorem appends_overflow_counterexample:
  "list_all valid_op ex_overflow_ops \<and> total_len ex_overflow_ops = 4294967296
   \<and> result_lstr (appends (psg_lstr_init ex_state 30) 30 ex_overflow_ops) 30
       = Some \<lparr>lstr_start = Some 1000, lstr_end = Some 1032, lstr_size = 0\<rparr>"
proof (intro conjI)
  show "list_all valid_op ex_overflow_ops"
    by (simp add: ex_overflow_ops_def)
  show "total_len ex_overflow_ops = 4294967296"
    by (simp add: ex_overflow_ops_def total_len_def)
  show "result_lstr (appends (psg_lstr_init ex_state 30) 30 ex_overflow_ops) 30
      = Some \<lparr>lstr_start = Some 1000, lstr_end = Some 1032, lstr_size = 0\<rparr>"
    by (simp add: ex_overflow_ops_def result_lstr_def psg_lstr_init_def psg_lstr_append_def
        psg_palloc_def psg_lstr_append_part_def ex_state_def sizeof_Part_def)
qed

section \<open>Making a string contiguous\<close>

lemma bytes_cong:
  "(\<And>i. i < n \<Longrightarrow> m (a + i) = m' (b + i)) \<Longrightarrow> bytes m a n = bytes m' b n"
  by (rule nth_equalityI) (simp_all add: bytes_nth)

lemma copy_loop_correct:
  "chain (parts s) p xs \<Longrightarrow> pos + total_size xs \<le> lim \<Longrightarrow>
   copy_loop s p pos lim
     = Some (Inr (pos + total_size xs, s\<lparr>mem := copied (mem s) pos xs\<rparr>))"
proof (induction xs arbitrary: s p pos)
  case Nil
  then show ?case by (subst copy_loop.simps) simp
next
  case (Cons ax xs)
  obtain a x where ax: "ax = (a, x)" by (cases ax)
  from Cons.prems(1) ax have p: "p = Some a" and hp: "parts s a = Some x"
    and ch: "chain (parts s) (part_next x) xs" by simp_all
  let ?n = "unat (part_size x)"
  let ?s' = "s\<lparr>mem := memcpy (mem s) pos (part_data x) ?n\<rparr>"
  from Cons.prems(2) have ok: "\<not> lim < pos + ?n" and le: "pos + ?n + total_size xs \<le> lim"
    by (simp_all add: ax total_size_Cons)
  have ch': "chain (parts ?s') (part_next x) xs" using ch by simp
  from Cons.IH [OF ch' le] show ?case
    by (subst copy_loop.simps) (simp add: p hp ok ax total_size_Cons add.assoc)
qed

lemma copied_below: "a < pos \<Longrightarrow> copied m pos xs a = m a"
proof (induction xs arbitrary: m pos)
  case Nil
  then show ?case by simp
next
  case (Cons ax xs)
  obtain b x where ax: "ax = (b, x)" by (cases ax)
  from Cons.prems have "a < pos + unat (part_size x)" by simp
  from Cons.IH [OF this] Cons.prems show ?case
    by (simp add: ax memcpy_def)
qed

lemma data_of_below:
  assumes "part_data x + unat (part_size x) \<le> b" and "\<And>a. a < b \<Longrightarrow> m' a = m a"
  shows "data_of m' x = data_of m x"
  unfolding data_of_def using assms by (intro bytes_cong) simp

lemma content_below:
  assumes "data_below b xs" and "\<And>a. a < b \<Longrightarrow> mem s' a = mem s a"
  shows "content s' xs = content s xs"
  using assms(1)
proof (induction xs)
  case Nil
  then show ?case by simp
next
  case (Cons ax xs)
  obtain a x where ax: "ax = (a, x)" by (cases ax)
  from Cons.prems ax have "part_data x + unat (part_size x) \<le> b" and "data_below b xs"
    by (simp_all add: data_below_def)
  with Cons.IH data_of_below [of x b "mem s'" "mem s"] assms(2) show ?case
    by (simp add: ax content_Cons)
qed

lemma copied_content:
  "data_below pos xs \<Longrightarrow>
   bytes (copied m pos xs) pos (total_size xs) = concat (map (\<lambda>(a, x). data_of m x) xs)"
proof (induction xs arbitrary: m pos)
  case Nil
  then show ?case by simp
next
  case (Cons ax xs)
  obtain a x where ax: "ax = (a, x)" by (cases ax)
  let ?n = "unat (part_size x)"
  let ?m1 = "memcpy m pos (part_data x) ?n"
  from Cons.prems ax have src: "part_data x + ?n \<le> pos" and rest: "data_below pos xs"
    by (simp_all add: data_below_def)
  from rest have rest': "data_below (pos + ?n) xs"
    by (auto simp: data_below_def list_all_iff)
  have first: "bytes (copied ?m1 (pos + ?n) xs) pos ?n = data_of m x"
    unfolding data_of_def
  proof (rule bytes_cong)
    fix i assume i: "i < ?n"
    then have "copied ?m1 (pos + ?n) xs (pos + i) = ?m1 (pos + i)"
      by (intro copied_below) simp
    also have "\<dots> = m (part_data x + i)" using i by (simp add: memcpy_def)
    finally show "copied ?m1 (pos + ?n) xs (pos + i) = m (part_data x + i)" .
  qed
  have same: "data_of ?m1 y = data_of m y" if "(b, y) \<in> set xs" for b y
  proof (rule data_of_below [where b = pos])
    from rest that show "part_data y + unat (part_size y) \<le> pos"
      by (auto simp: data_below_def list_all_iff)
    show "?m1 a = m a" if "a < pos" for a using that by (simp add: memcpy_def)
  qed
  then have "map (\<lambda>(a, x). data_of ?m1 x) xs = map (\<lambda>(a, x). data_of m x) xs"
    by auto
  with Cons.IH [OF rest', of ?m1]
  have second: "bytes (copied ?m1 (pos + ?n) xs) (pos + ?n) (total_size xs)
      = concat (map (\<lambda>(a, x). data_of m x) xs)" by simp
  show ?case
    by (simp add: ax total_size_Cons bytes_add first second)
qed


lemma pool_separate_data: "pool_separate s str xs \<Longrightarrow> data_below (pool_next s) xs"
  by (auto simp: pool_separate_def data_below_def list_all_iff)

lemma null_terminate_state:
  assumes l: "lstrs s str = Some l" and wf: "wf_lstr s l xs"
    and sep: "pool_separate s str xs" and many: "xs \<noteq> []"
    and bound: "unat (lstr_size l) + 1 < 2 ^ 32"
  shows "psg_lstr_null_terminate s str
           = Some (Inr (pool_next s + unat (lstr_size l) + 1,
               s\<lparr>pool_next := pool_next s + unat (lstr_size l) + 1 + sizeof_LString + sizeof_Part,
                 mem := (copied (mem s) (pool_next s) xs)
                          (pool_next s + unat (lstr_size l) := 0),
                 lstrs := (lstrs s)(pool_next s + unat (lstr_size l) + 1 \<mapsto>
                   \<lparr>lstr_start = Some (pool_next s + unat (lstr_size l) + 1 + sizeof_LString),
                    lstr_end = Some (pool_next s + unat (lstr_size l) + 1 + sizeof_LString),
                    lstr_size = lstr_size l\<rparr>),
                 parts := (parts s)(pool_next s + unat (lstr_size l) + 1 + sizeof_LString \<mapsto>
                   \<lparr>part_next = None, part_mbuf_block = None,
                    part_data = pool_next s, part_size = lstr_size l\<rparr>)\<rparr>))"
proof -
  let ?dat = "pool_next s" and ?n = "unat (lstr_size l)"
  from wf have ch: "chain (parts s) (lstr_start l) xs" and tot: "?n = total_size xs"
    by (simp_all add: wf_lstr_def)
  have u1: "unat (lstr_size l + 1) = Suc ?n"
    using unat_plus_uint [of "lstr_size l" 1] bound by simp
  have nz: "lstr_size l \<noteq> 0"
    using wf_empty_iff [OF wf] ch many by (cases xs) auto
  let ?s1 = "s\<lparr>pool_next := Suc (?dat + ?n)\<rparr>"
  have ch1: "chain (parts ?s1) (lstr_start l) xs" using ch by simp
  have copy: "copy_loop ?s1 (lstr_start l) ?dat (Suc (?dat + ?n))
      = Some (Inr (?dat + ?n, ?s1\<lparr>mem := copied (mem s) ?dat xs\<rparr>))"
    using copy_loop_correct [OF ch1, of ?dat "Suc (?dat + ?n)"] tot by simp
  from sep have ne: "str \<noteq> ?dat + ?n + 1" by (simp add: pool_separate_def)
  show ?thesis
    using ne nz
    by (simp add: psg_lstr_null_terminate_def l psg_pnalloc_def u1 copy psg_palloc_def
          psg_lstr_init_def psg_lstr_append_def psg_lstr_append_part_def add.assoc)
qed


lemma wf_many:
  assumes wf: "wf_lstr s l xs" and many: "1 < length xs"
  shows "lstr_size l \<noteq> 0 \<and> lstr_start l \<noteq> lstr_end l"
proof -
  from many have ne: "xs \<noteq> []" by auto
  from wf have ch: "chain (parts s) (lstr_start l) xs" by (simp add: wf_lstr_def)
  have "lstr_size l \<noteq> 0"
    using wf_empty_iff [OF wf] ch ne by (cases xs) auto
  moreover have "lstr_start l \<noteq> lstr_end l"
    using wf_single [OF wf ne] many by auto
  ultimately show ?thesis by simp
qed

lemma wf_few:
  assumes wf: "wf_lstr s l xs" and few: "length xs \<le> 1"
  shows "lstr_size l = 0 \<or> lstr_start l = lstr_end l"
proof (cases xs)
  case Nil
  with wf_empty_iff [OF wf] wf show ?thesis by (simp add: wf_lstr_def)
next
  case (Cons ax xs')
  with few have "xs = [ax]" by simp
  with wf show ?thesis by (cases ax) (simp add: wf_lstr_def)
qed

text \<open>
  Claim C6, as amended. For a well-formed LString \<open>str\<close>, \<open>psg_lstr_make_contiguous\<close>
  returns \<open>str\<close> itself and leaves the state as it is (no allocation, no copy) when \<open>str\<close> is
  empty or has exactly one part. Otherwise, when \<open>str->size\<close> is below \<open>2^32 - 1\<close> and the
  free memory of the pool holds nothing of \<open>str\<close>, it returns a new LString allocated from
  the pool, with one new part whose size is \<open>str->size\<close>, whose data are the concatenated
  content of \<open>str\<close> followed by a NUL byte at offset \<open>size\<close>, and which holds no
  buffer-block reference; \<open>str\<close>, its parts, its content and all reference counts are as
  before.
\<close>

theorem psg_lstr_make_contiguous_correct:
  assumes l: "lstrs s str = Some l" and wf: "wf_lstr s l xs"
  shows "(length xs \<le> 1 \<longrightarrow> psg_lstr_make_contiguous s str = Some (Inr (str, s)))
         \<and> (1 < length xs \<and> unat (lstr_size l) + 1 < 2 ^ 32 \<and> pool_separate s str xs \<longrightarrow>
              (\<exists>newstr np s'.
                 psg_lstr_make_contiguous s str = Some (Inr (newstr, s'))
                 \<and> newstr \<noteq> str \<and> pool_next s \<le> newstr \<and> pool_next s \<le> np
                 \<and> lstrs s' newstr
                     = Some \<lparr>lstr_start = Some np, lstr_end = Some np, lstr_size = lstr_size l\<rparr>
                 \<and> parts s' np
                     = Some \<lparr>part_next = None, part_mbuf_block = None,
                             part_data = pool_next s, part_size = lstr_size l\<rparr>
                 \<and> bytes (mem s') (pool_next s) (unat (lstr_size l)) = content s xs
                 \<and> mem s' (pool_next s + unat (lstr_size l)) = 0
                 \<and> lstrs s' str = Some l \<and> wf_lstr s' l xs \<and> content s' xs = content s xs
                 \<and> refcount s' = refcount s))"
proof (intro conjI impI)
  assume "length xs \<le> 1"
  from wf_few [OF wf this] show "psg_lstr_make_contiguous s str = Some (Inr (str, s))"
    by (auto simp: psg_lstr_make_contiguous_def l)
next
  assume a: "1 < length xs \<and> unat (lstr_size l) + 1 < 2 ^ 32 \<and> pool_separate s str xs"
  then have many: "1 < length xs" and bound: "unat (lstr_size l) + 1 < 2 ^ 32"
    and sep: "pool_separate s str xs" by simp_all
  from many have ne: "xs \<noteq> []" by auto
  let ?dat = "pool_next s" and ?n = "unat (lstr_size l)"
  let ?newstr = "?dat + ?n + 1"
  let ?np = "?newstr + sizeof_LString"
  let ?s' = "s\<lparr>pool_next := ?np + sizeof_Part,
               mem := (copied (mem s) ?dat xs)(?dat + ?n := 0),
               lstrs := (lstrs s)(?newstr \<mapsto>
                 \<lparr>lstr_start = Some ?np, lstr_end = Some ?np, lstr_size = lstr_size l\<rparr>),
               parts := (parts s)(?np \<mapsto>
                 \<lparr>part_next = None, part_mbuf_block = None,
                  part_data = ?dat, part_size = lstr_size l\<rparr>)\<rparr>"
  from wf have tot: "?n = total_size xs" by (simp add: wf_lstr_def)
  have run: "psg_lstr_make_contiguous s str = Some (Inr (?newstr, ?s'))"
    using wf_many [OF wf many] null_terminate_state [OF l wf sep ne bound]
    by (simp add: psg_lstr_make_contiguous_def l)
  from sep have str: "str < ?dat" by (simp add: pool_separate_def)
  have fresh: "?np \<notin> fst ` set xs"
    using sep by (auto simp: pool_separate_def list_all_iff)
  have wf': "wf_lstr ?s' l xs"
    by (rule wf_lstr_alloc [OF wf fresh]) simp
  have below: "mem ?s' a = mem s a" if "a < ?dat" for a
    using that by (simp add: copied_below)
  have c': "content ?s' xs = content s xs"
    by (rule content_below [OF pool_separate_data [OF sep] below])
  have "bytes (mem ?s') ?dat ?n = bytes (copied (mem s) ?dat xs) ?dat ?n"
    by (rule bytes_cong) simp
  also have "\<dots> = content s xs"
    using copied_content [OF pool_separate_data [OF sep], of "mem s"]
    by (simp add: tot content_def)
  finally have copy: "bytes (mem ?s') ?dat ?n = content s xs" .
  have "?newstr \<noteq> str \<and> ?dat \<le> ?newstr \<and> ?dat \<le> ?np
      \<and> lstrs ?s' ?newstr
          = Some \<lparr>lstr_start = Some ?np, lstr_end = Some ?np, lstr_size = lstr_size l\<rparr>
      \<and> parts ?s' ?np
          = Some \<lparr>part_next = None, part_mbuf_block = None,
                  part_data = ?dat, part_size = lstr_size l\<rparr>
      \<and> mem ?s' (?dat + ?n) = 0
      \<and> lstrs ?s' str = Some l \<and> refcount ?s' = refcount s"
    using str l by simp
  with run wf' c' copy
  show "\<exists>newstr np s'.
          psg_lstr_make_contiguous s str = Some (Inr (newstr, s'))
          \<and> newstr \<noteq> str \<and> pool_next s \<le> newstr \<and> pool_next s \<le> np
          \<and> lstrs s' newstr
              = Some \<lparr>lstr_start = Some np, lstr_end = Some np, lstr_size = lstr_size l\<rparr>
          \<and> parts s' np
              = Some \<lparr>part_next = None, part_mbuf_block = None,
                      part_data = pool_next s, part_size = lstr_size l\<rparr>
          \<and> bytes (mem s') (pool_next s) (unat (lstr_size l)) = content s xs
          \<and> mem s' (pool_next s + unat (lstr_size l)) = 0
          \<and> lstrs s' str = Some l \<and> wf_lstr s' l xs \<and> content s' xs = content s xs
          \<and> refcount s' = refcount s"
    by blast
qed


theorem psg_lstr_make_contiguous_correct_witness:
  "lstrs ex_state 23 = Some ex_D \<and> wf_lstr ex_state ex_D [(14, ex_b2)]
   \<and> length [(14 :: addr, ex_b2)] \<le> 1
   \<and> psg_lstr_make_contiguous ex_state 23 = Some (Inr (23, ex_state))
   \<and> lstrs ex_state 20 = Some ex_A \<and> wf_lstr ex_state ex_A [(11, ex_a1), (12, ex_a2)]
   \<and> 1 < length [(11 :: addr, ex_a1), (12, ex_a2)] \<and> unat (lstr_size ex_A) + 1 < 2 ^ 32
   \<and> pool_separate ex_state 20 [(11, ex_a1), (12, ex_a2)]
   \<and> (\<exists>newstr np s'.
         psg_lstr_make_contiguous ex_state 20 = Some (Inr (newstr, s'))
         \<and> newstr \<noteq> 20
         \<and> lstrs s' newstr = Some \<lparr>lstr_start = Some np, lstr_end = Some np, lstr_size = 3\<rparr>
         \<and> parts s' np = Some \<lparr>part_next = None, part_mbuf_block = None,
                                part_data = 1000, part_size = 3\<rparr>
         \<and> bytes (mem s') 1000 3 = [97, 98, 99] \<and> mem s' 1003 = 0
         \<and> lstrs s' 20 = Some ex_A \<and> refcount s' = refcount ex_state)"
proof -
  have l: "lstrs ex_state 20 = Some ex_A" by (simp add: ex_state_def)
  have many: "1 < length [(11 :: addr, ex_a1), (12, ex_a2)]" by simp
  have sz: "unat (lstr_size ex_A) = 3" by (simp add: ex_A_def)
  have bound: "unat (lstr_size ex_A) + 1 < 2 ^ 32" by (simp add: sz)
  have sep: "pool_separate ex_state 20 [(11, ex_a1), (12, ex_a2)]"
    by (simp add: pool_separate_def ex_state_def ex_a1_def ex_a2_def)
  have pn: "pool_next ex_state = 1000" by (simp add: ex_state_def)
  have sA: "lstr_size ex_A = 3" by (simp add: ex_A_def)
  from psg_lstr_make_contiguous_correct [OF l ex_wf_A] many bound sep
  obtain newstr np s' where
    "psg_lstr_make_contiguous ex_state 20 = Some (Inr (newstr, s'))"
    "newstr \<noteq> 20"
    "lstrs s' newstr
       = Some \<lparr>lstr_start = Some np, lstr_end = Some np, lstr_size = lstr_size ex_A\<rparr>"
    "parts s' np = Some \<lparr>part_next = None, part_mbuf_block = None,
                          part_data = pool_next ex_state, part_size = lstr_size ex_A\<rparr>"
    "bytes (mem s') (pool_next ex_state) (unat (lstr_size ex_A))
       = content ex_state [(11, ex_a1), (12, ex_a2)]"
    "mem s' (pool_next ex_state + unat (lstr_size ex_A)) = 0"
    "lstrs s' 20 = Some ex_A" "refcount s' = refcount ex_state"
    by blast
  then have "psg_lstr_make_contiguous ex_state 20 = Some (Inr (newstr, s'))
         \<and> newstr \<noteq> 20
         \<and> lstrs s' newstr = Some \<lparr>lstr_start = Some np, lstr_end = Some np, lstr_size = 3\<rparr>
         \<and> parts s' np = Some \<lparr>part_next = None, part_mbuf_block = None,
                                part_data = 1000, part_size = 3\<rparr>
         \<and> bytes (mem s') 1000 3 = [97, 98, 99] \<and> mem s' 1003 = 0
         \<and> lstrs s' 20 = Some ex_A \<and> refcount s' = refcount ex_state"
    by (simp add: pn sA ex_content_A)
  then have two: "\<exists>newstr np s'.
         psg_lstr_make_contiguous ex_state 20 = Some (Inr (newstr, s'))
         \<and> newstr \<noteq> 20
         \<and> lstrs s' newstr = Some \<lparr>lstr_start = Some np, lstr_end = Some np, lstr_size = 3\<rparr>
         \<and> parts s' np = Some \<lparr>part_next = None, part_mbuf_block = None,
                                part_data = 1000, part_size = 3\<rparr>
         \<and> bytes (mem s') 1000 3 = [97, 98, 99] \<and> mem s' 1003 = 0
         \<and> lstrs s' 20 = Some ex_A \<and> refcount s' = refcount ex_state"
    by blast
  have lD: "lstrs ex_state 23 = Some ex_D" by (simp add: ex_state_def)
  have one: "psg_lstr_make_contiguous ex_state 23 = Some (Inr (23, ex_state))"
    using psg_lstr_make_contiguous_correct [OF lD ex_wf_D] by simp
  show ?thesis using l ex_wf_A many bound sep two lD ex_wf_D one by simp
qed

text \<open>
  Claim C6 as first stated (for every well-formed LString) fails for a string of
  \<open>2^32 - 1\<close> bytes in two parts: \<^verbatim>\<open>str->size + 1\<close> wraps around to 0, so no byte is
  allocated and the first \<^verbatim>\<open>memcpy\<close> writes past the end of the block.
\<close>

theorem psg_lstr_make_contiguous_overflow_counterexample:
  "lstrs ex_big_state 22 = Some ex_C
   \<and> wf_lstr ex_big_state ex_C [(15, ex_c1), (16, ex_c2)]
   \<and> pool_separate ex_big_state 22 [(15, ex_c1), (16, ex_c2)]
   \<and> psg_lstr_make_contiguous ex_big_state 22 = Some (Inl BufferOverflow)"
proof (intro conjI)
  show "lstrs ex_big_state 22 = Some ex_C" by (simp add: ex_big_state_def)
  show "wf_lstr ex_big_state ex_C [(15, ex_c1), (16, ex_c2)]"
    by (simp add: wf_lstr_def ex_big_state_def ex_C_def ex_c1_def ex_c2_def total_size_def)
  show "pool_separate ex_big_state 22 [(15, ex_c1), (16, ex_c2)]"
    by (simp add: pool_separate_def ex_big_state_def ex_c1_def ex_c2_def)
  show "psg_lstr_make_contiguous ex_big_state 22 = Some (Inl BufferOverflow)"
    by (simp add: psg_lstr_make_contiguous_def psg_lstr_null_terminate_def psg_pnalloc_def
        copy_loop.simps ex_big_state_def ex_C_def ex_c1_def ex_c2_def)
qed

end
